theory Spec2Isabelle
  imports Main "HOL-Library.Word" "HOL-Library.AList"
begin

section \<open>FlappyPlace: the collaborative canvas server (server.js)\<close>

text \<open>
  The server keeps three pieces of process-wide state: the canvas (a \<open>Uint8Array\<close> of
  \<open>CANVAS_SIZE * CANVAS_SIZE\<close> palette indices), the cooldown map (user id to the time of
  the last accepted draw) and the queue of updates waiting for the next broadcast.
  Each JavaScript function is embedded as a HOL function that takes the state it reads
  and returns the state it leaves. Numbers that reach the functions are modelled as
  \<open>int\<close> (JavaScript numbers holding integers); bytes of typed arrays are \<open>8 word\<close>; the
  index shift \<open><< 2\<close> works on signed 32-bit integers, and loop counters that can grow
  without a bound in the source are doubles. A colour that is not a number is covered by
  \<open>setPixel_value\<close>; coordinates that are not integers are outside the model.
\<close>

subsection \<open>Configuration\<close>

definition CANVAS_SIZE :: int where
  "CANVAS_SIZE = 2000"

definition COOLDOWN_MS :: int where
  "COOLDOWN_MS = 5000"

definition UPDATE_BATCH_INTERVAL :: int where
  "UPDATE_BATCH_INTERVAL = 100"

definition COLORS :: "string list" where
  "COLORS =
    [''#FFFFFF'', ''#E4E4E4'', ''#888888'', ''#222222'',
     ''#FFA7D1'', ''#E50000'', ''#E59500'', ''#A06A42'',
     ''#E5D900'', ''#94E044'', ''#02BE01'', ''#00D3DD'',
     ''#0083C7'', ''#0000EA'', ''#CF6EE4'', ''#820080'']"

subsection \<open>Typed arrays\<close>

text \<open>
  A \<open>Uint8Array\<close> (and a Node \<open>Buffer\<close>) is a list of bytes of fixed length. Reading at
  an integer index outside the array yields \<open>undefined\<close> (\<open>None\<close>); writing there does
  nothing. A number stored into the array is converted with \<open>ToUint8\<close> (the integer
  modulo 256), and \<open>undefined\<close> is stored as 0.
\<close>

type_synonym u8array = "8 word list"

definition u8_get :: "u8array \<Rightarrow> int \<Rightarrow> int option" where
  "u8_get a i = (if 0 \<le> i \<and> i < int (length a) then Some (uint (a ! nat i)) else None)"

definition ToUint8 :: "int option \<Rightarrow> 8 word" where
  "ToUint8 v = (case v of None \<Rightarrow> 0 | Some n \<Rightarrow> word_of_int n)"

definition u8_set :: "u8array \<Rightarrow> int \<Rightarrow> int option \<Rightarrow> u8array" where
  "u8_set a i v = (if 0 \<le> i \<and> i < int (length a) then a[nat i := ToUint8 v] else a)"

subsection \<open>The canvas\<close>

type_synonym canvas = u8array

text \<open>\<open>const canvas = new Uint8Array(CANVAS_SIZE * CANVAS_SIZE)\<close>: all cells 0.\<close>

definition canvas_init :: canvas where
  "canvas_init = replicate (nat (CANVAS_SIZE * CANVAS_SIZE)) 0"

text \<open>The array is allocated once and never resized: its length is an invariant.\<close>

definition canvas_ok :: "canvas \<Rightarrow> bool" where
  "canvas_ok c = (length c = nat (CANVAS_SIZE * CANVAS_SIZE))"

definition getPixelIndex :: "int \<Rightarrow> int \<Rightarrow> int" where
  "getPixelIndex x y = y * CANVAS_SIZE + x"

text \<open>\<open>setPixel\<close> returns its boolean result together with the canvas it leaves.\<close>

definition setPixel :: "canvas \<Rightarrow> int \<Rightarrow> int \<Rightarrow> int \<Rightarrow> bool \<times> canvas" where
  "setPixel c x y colorIndex =
    (if x < 0 \<or> x \<ge> CANVAS_SIZE \<or> y < 0 \<or> y \<ge> CANVAS_SIZE then (False, c)
     else if colorIndex < 0 \<or> colorIndex \<ge> int (length COLORS) then (False, c)
     else (True, u8_set c (getPixelIndex x y) (Some colorIndex)))"

definition getPixel :: "canvas \<Rightarrow> int \<Rightarrow> int \<Rightarrow> int option" where
  "getPixel c x y = u8_get c (getPixelIndex x y)"

text \<open>
  The colour argument reaches \<open>setPixel\<close> from the message as any JSON value. Both guards
  compare it as a number and the typed array stores it as a number, so \<open>setPixel\<close> depends
  on it only through the number it converts to. That number is \<open>NaN\<close> for \<open>undefined\<close> (a
  missing field), for a string such as \<open>'red'\<close> and for an object. \<open>setPixel_value\<close> is
  \<open>setPixel\<close> with the colour given by that number, \<open>None\<close> standing for \<open>NaN\<close>; a comparison
  with \<open>NaN\<close> is false (\<open>js_lt\<close>, \<open>js_ge\<close>), and \<open>NaN\<close> is stored as 0.
\<close>

definition js_lt :: "int option \<Rightarrow> int \<Rightarrow> bool" where
  "js_lt v n = (case v of None \<Rightarrow> False | Some a \<Rightarrow> a < n)"

definition js_ge :: "int option \<Rightarrow> int \<Rightarrow> bool" where
  "js_ge v n = (case v of None \<Rightarrow> False | Some a \<Rightarrow> a \<ge> n)"

definition setPixel_value :: "canvas \<Rightarrow> int \<Rightarrow> int \<Rightarrow> int option \<Rightarrow> bool \<times> canvas" where
  "setPixel_value c x y colorIndex =
    (if x < 0 \<or> x \<ge> CANVAS_SIZE \<or> y < 0 \<or> y \<ge> CANVAS_SIZE then (False, c)
     else if js_lt colorIndex 0 \<or> js_ge colorIndex (int (length COLORS)) then (False, c)
     else (True, u8_set c (getPixelIndex x y) colorIndex))"

subsection \<open>Reading a region\<close>

text \<open>
  \<open>new Uint8Array(width * height)\<close> throws a \<open>RangeError\<close> when the length is negative,
  when it exceeds \<open>2 ^ 53 - 1\<close> (the bound of \<open>ToIndex\<close>), and when it exceeds the largest
  typed array the engine allocates. That last bound is not in the source: it is the
  parameter \<open>maxLength\<close> of \<open>getRegion\<close>. Otherwise the buffer starts zero-filled.

  The two nested \<open>for\<close> loops are \<open>getRegion_dx\<close> (inner, over \<open>dx\<close>) and \<open>getRegion_dy\<close>
  (outer, over \<open>dy\<close>). Their counters are doubles: \<open>dx++\<close> adds one exactly below
  \<open>2 ^ 53\<close>, and at \<open>2 ^ 53\<close> the sum rounds back to \<open>2 ^ 53\<close>, so the counter stops
  advancing (\<open>js_inc\<close>). A loop whose bound lies above \<open>2 ^ 53\<close> therefore never ends; the
  loops are partial functions, and \<open>None\<close> is the call that does not return.
  The sums and products of the loop body are exact on integers wherever their value
  decides something: an index below the buffer length, a world coordinate inside the
  canvas. A cell read from the canvas goes through the typed-array store of the region.
\<close>

datatype js_error = RangeError

definition js_inc :: "int \<Rightarrow> int" where
  "js_inc n = (if n < 2 ^ 53 then n + 1 else n)"

partial_function (option) getRegion_dx ::
  "canvas \<Rightarrow> int \<Rightarrow> int \<Rightarrow> int \<Rightarrow> int \<Rightarrow> int \<Rightarrow> u8array \<Rightarrow> u8array option" where
  "getRegion_dx c x y width dy dx region =
    (if dx < width then
       let worldX = x + dx;
           worldY = y + dy;
           region' =
             (if worldX \<ge> 0 \<and> worldX < CANVAS_SIZE \<and> worldY \<ge> 0 \<and> worldY < CANVAS_SIZE
              then u8_set region (dy * width + dx) (u8_get c (getPixelIndex worldX worldY))
              else region)
       in getRegion_dx c x y width dy (js_inc dx) region'
     else Some region)"

partial_function (option) getRegion_dy ::
  "canvas \<Rightarrow> int \<Rightarrow> int \<Rightarrow> int \<Rightarrow> int \<Rightarrow> int \<Rightarrow> u8array \<Rightarrow> u8array option" where
  "getRegion_dy c x y width height dy region =
    (if dy < height
     then Option.bind (getRegion_dx c x y width dy 0 region)
            (\<lambda>region'. getRegion_dy c x y width height (js_inc dy) region')
     else Some region)"

definition getRegion ::
  "int \<Rightarrow> canvas \<Rightarrow> int \<Rightarrow> int \<Rightarrow> int \<Rightarrow> int \<Rightarrow> (js_error + u8array) option" where
  "getRegion maxLength c x y width height =
    (if width * height < 0 \<or> width * height > 2 ^ 53 - 1 \<or> width * height > maxLength
     then Some (Inl RangeError)
     else map_option Inr
            (getRegion_dy c x y width height 0 (replicate (nat (width * height)) 0)))"

subsection \<open>Cooldown\<close>

text \<open>
  \<open>userCooldowns\<close> is a JavaScript \<open>Map\<close> from user id to the time of the last accepted
  draw: a list of entries in insertion order with pairwise distinct keys. \<open>get\<close> is
  \<open>map_of\<close>, \<open>set\<close> replaces the value of a present key in place and appends an absent
  one (\<open>AList.update\<close>), \<open>delete\<close> removes the entry (\<open>AList.delete\<close>).
  Times are the values of \<open>Date.now()\<close>, milliseconds since 1 January 1970; the reading
  taken by a call is a parameter of the function that makes it.
\<close>

type_synonym userId = string

type_synonym cooldowns = "(userId \<times> int) list"

text \<open>
  \<open>if (!lastDraw) return true\<close>: the test holds for \<open>undefined\<close> (no entry) and also for a
  stored timestamp of 0.
\<close>

definition canUserDraw :: "cooldowns \<Rightarrow> int \<Rightarrow> userId \<Rightarrow> bool" where
  "canUserDraw userCooldowns now userId =
    (case map_of userCooldowns userId of
       None \<Rightarrow> True
     | Some lastDraw \<Rightarrow> if lastDraw = 0 then True else now - lastDraw \<ge> COOLDOWN_MS)"

definition updateUserCooldown :: "cooldowns \<Rightarrow> int \<Rightarrow> userId \<Rightarrow> cooldowns" where
  "updateUserCooldown userCooldowns now userId = AList.update userId now userCooldowns"

text \<open>
  The cleanup timer reads the clock once and walks over the entries of the map,
  deleting each entry older than ten cooldown windows.
\<close>

fun sweep_entries :: "(userId \<times> int) list \<Rightarrow> int \<Rightarrow> cooldowns \<Rightarrow> cooldowns" where
  "sweep_entries [] now m = m"
| "sweep_entries ((userId, timestamp) # rest) now m =
     sweep_entries rest now
       (if now - timestamp > COOLDOWN_MS * 10 then AList.delete userId m else m)"

definition cooldownSweep :: "cooldowns \<Rightarrow> int \<Rightarrow> cooldowns" where
  "cooldownSweep userCooldowns now = sweep_entries userCooldowns now userCooldowns"

text \<open>The keys of a \<open>Map\<close> are pairwise distinct.\<close>

definition cooldowns_ok :: "cooldowns \<Rightarrow> bool" where
  "cooldowns_ok m = distinct (map fst m)"

subsection \<open>Draw requests and the broadcast queue\<close>

text \<open>
  The process-wide state: the canvas, the cooldown map and the queue
  \<open>pendingUpdates\<close> of accepted draws \<open>{x, y, color}\<close> waiting for the next broadcast.
\<close>

record pixel_update =
  u_x :: int
  u_y :: int
  u_color :: int

record server =
  canvas :: canvas
  userCooldowns :: cooldowns
  pendingUpdates :: "pixel_update list"

definition server_init :: server where
  "server_init = \<lparr>canvas = canvas_init, userCooldowns = [], pendingUpdates = []\<rparr>"

text \<open>
  The \<open>drawPixel\<close> branch of the message handler, for the connection of \<open>userId\<close>. The
  handler reads \<open>Date.now()\<close> up to three times: \<open>now1\<close> in \<open>canUserDraw\<close>; \<open>now2\<close> in the
  cooldown notice or in \<open>updateUserCooldown\<close>; \<open>now3\<close> in the \<open>drawSuccess\<close> reply. The
  result is the state left and the message sent back on the socket, if any. In the
  cooldown notice \<open>remaining\<close> is computed from \<open>userCooldowns.get(userId)\<close>; \<open>None\<close> stands
  for the \<open>NaN\<close> that an absent entry would give.
\<close>

datatype reply = Cooldown "int option" | DrawSuccess int

definition drawPixel ::
  "server \<Rightarrow> userId \<Rightarrow> int \<Rightarrow> int \<Rightarrow> int \<Rightarrow> int \<Rightarrow> int \<Rightarrow> int \<Rightarrow> server \<times> reply option" where
  "drawPixel s userId x y color now1 now2 now3 =
    (if \<not> canUserDraw (userCooldowns s) now1 userId then
       (s, Some (Cooldown
          (case map_of (userCooldowns s) userId of
             None \<Rightarrow> None
           | Some lastDraw \<Rightarrow> Some (COOLDOWN_MS - (now2 - lastDraw)))))
     else
       (case setPixel (canvas s) x y color of
          (True, c) \<Rightarrow>
            (s\<lparr>canvas := c,
               userCooldowns := updateUserCooldown (userCooldowns s) now2 userId,
               pendingUpdates := pendingUpdates s @ [\<lparr>u_x = x, u_y = y, u_color = color\<rparr>]\<rparr>,
             Some (DrawSuccess (now3 + COOLDOWN_MS)))
        | (False, c) \<Rightarrow> (s\<lparr>canvas := c\<rparr>, None)))"

text \<open>
  The broadcast timer. With an empty queue it returns at once. Otherwise
  \<open>pendingUpdates.splice(0)\<close> empties the queue and returns its former content, which is
  serialised once and sent to every client whose socket is open. The result is the
  state left, the message built (if any) and the sends, one per open client.
\<close>

datatype ready_state = CONNECTING | OPEN | CLOSING | CLOSED

record client =
  client_id :: nat
  readyState :: ready_state

datatype message = PixelUpdates "pixel_update list"

definition broadcastTick ::
  "server \<Rightarrow> client list \<Rightarrow> server \<times> message option \<times> (nat \<times> message) list" where
  "broadcastTick s clients =
    (if length (pendingUpdates s) = 0 then (s, None, [])
     else
       let updates = pendingUpdates s;
           s' = s\<lparr>pendingUpdates := []\<rparr>;
           message = PixelUpdates updates
       in (s', Some message,
           map (\<lambda>cl. (client_id cl, message)) (filter (\<lambda>cl. readyState cl = OPEN) clients)))"

text \<open>
  Runs of the server: draw requests and broadcast ticks, handled one after the other
  (each handler runs to completion before the next event). A run leaves a state and
  the list of what was observed: the reply to each draw request and the outcome of
  each tick. The accepted draws of a run are the requests answered with
  \<open>drawSuccess\<close>; its flushed batches are the update lists of the messages built by ticks.
\<close>

datatype event =
  DrawPixel userId int int int int int int
| Tick "client list"

datatype observation =
  Replied userId pixel_update "reply option"
| Ticked "message option" "(nat \<times> message) list"

fun step :: "server \<Rightarrow> event \<Rightarrow> server \<times> observation" where
  "step s (DrawPixel userId x y color now1 now2 now3) =
     (case drawPixel s userId x y color now1 now2 now3 of
        (s', r) \<Rightarrow> (s', Replied userId \<lparr>u_x = x, u_y = y, u_color = color\<rparr> r))"
| "step s (Tick clients) =
     (case broadcastTick s clients of (s', m, sends) \<Rightarrow> (s', Ticked m sends))"

fun run :: "server \<Rightarrow> event list \<Rightarrow> server \<times> observation list" where
  "run s [] = (s, [])"
| "run s (e # es) =
     (case step s e of (s1, ob) \<Rightarrow> (case run s1 es of (s2, obs) \<Rightarrow> (s2, ob # obs)))"

fun accepted_draws :: "observation list \<Rightarrow> pixel_update list" where
  "accepted_draws [] = []"
| "accepted_draws (Replied userId u (Some (DrawSuccess t)) # obs) = u # accepted_draws obs"
| "accepted_draws (ob # obs) = accepted_draws obs"

fun flushed_batches :: "observation list \<Rightarrow> pixel_update list list" where
  "flushed_batches [] = []"
| "flushed_batches (Ticked (Some (PixelUpdates b)) sends # obs) = b # flushed_batches obs"
| "flushed_batches (ob # obs) = flushed_batches obs"

subsection \<open>Snapshots: loading and exporting the canvas\<close>

text \<open>
  \<open>parseInt(s, 16)\<close> on the two-character slices of a palette colour: the longest
  prefix of hexadecimal digits is read, and the result is \<open>NaN\<close> (\<open>None\<close>) when the first
  character is not a digit. (Leading white space, a sign and a \<open>0x\<close> prefix, which
  \<open>parseInt\<close> also accepts, do not occur in these slices and are not modelled.)
  \<open>slice\<close> is \<open>String.prototype.slice\<close> for \<open>0 \<le> start \<le> stop\<close>.
\<close>

definition hexDigit :: "char \<Rightarrow> int option" where
  "hexDigit ch =
    (let n = int (of_char ch) in
     if 48 \<le> n \<and> n \<le> 57 then Some (n - 48)
     else if 65 \<le> n \<and> n \<le> 70 then Some (n - 55)
     else if 97 \<le> n \<and> n \<le> 102 then Some (n - 87)
     else None)"

fun parseHex :: "string \<Rightarrow> int \<Rightarrow> int" where
  "parseHex [] acc = acc"
| "parseHex (ch # rest) acc =
     (case hexDigit ch of None \<Rightarrow> acc | Some d \<Rightarrow> parseHex rest (acc * 16 + d))"

definition parseInt16 :: "string \<Rightarrow> int option" where
  "parseInt16 s =
    (case s of
       [] \<Rightarrow> None
     | ch # rest \<Rightarrow> (case hexDigit ch of None \<Rightarrow> None | Some d \<Rightarrow> Some (parseHex rest d)))"

definition slice :: "string \<Rightarrow> nat \<Rightarrow> nat \<Rightarrow> string" where
  "slice s start stop = take (stop - start) (drop start s)"

text \<open>
  An RGB triple as the code computes with it: a channel is a number, or \<open>None\<close> when it
  is \<open>NaN\<close> (a failed \<open>parseInt\<close>) or \<open>undefined\<close> (a read outside the image data).
  \<open>paletteRGB\<close> is \<open>COLORS.map(col => [parseInt(col.slice(1,3),16), ...])\<close>.
\<close>

type_synonym rgb = "int option \<times> int option \<times> int option"

definition hexToRGB :: "string \<Rightarrow> rgb" where
  "hexToRGB col =
     (parseInt16 (slice col 1 3), parseInt16 (slice col 3 5), parseInt16 (slice col 5 7))"

definition paletteRGB :: "rgb list" where
  "paletteRGB = map hexToRGB COLORS"

text \<open>
  The squared distance \<open>(r-pr)*(r-pr) + (g-pg)*(g-pg) + (b-pb)*(b-pb)\<close>; it is \<open>NaN\<close>
  (\<open>None\<close>) as soon as one operand is \<open>NaN\<close> or \<open>undefined\<close>. \<open>bestDist\<close> starts at
  \<open>Infinity\<close>, and \<open>dist < bestDist\<close> is false for a \<open>NaN\<close> distance. \<open>nearest_loop\<close> is the
  loop over the palette: \<open>i\<close> is the index of the entry at the head of the list.
\<close>

definition channel_sq :: "int option \<Rightarrow> int option \<Rightarrow> int option" where
  "channel_sq v pv =
    (case (v, pv) of (Some a, Some p) \<Rightarrow> Some ((a - p) * (a - p)) | _ \<Rightarrow> None)"

definition dist :: "rgb \<Rightarrow> rgb \<Rightarrow> int option" where
  "dist px p =
    (case (px, p) of
       ((r, g, b), (pr, pg, pb)) \<Rightarrow>
         (case (channel_sq r pr, channel_sq g pg, channel_sq b pb) of
            (Some dr, Some dg, Some db) \<Rightarrow> Some (dr + dg + db)
          | _ \<Rightarrow> None))"

datatype best = Infinity | Finite int

fun less_best :: "int \<Rightarrow> best \<Rightarrow> bool" where
  "less_best d Infinity = True"
| "less_best d (Finite b) = (d < b)"

fun nearest_loop :: "rgb list \<Rightarrow> rgb \<Rightarrow> int \<Rightarrow> int \<Rightarrow> best \<Rightarrow> int" where
  "nearest_loop [] px i bestIndex bestDist = bestIndex"
| "nearest_loop (p # ps) px i bestIndex bestDist =
     (case dist px p of
        None \<Rightarrow> nearest_loop ps px (i + 1) bestIndex bestDist
      | Some d \<Rightarrow>
          if less_best d bestDist then nearest_loop ps px (i + 1) i (Finite d)
          else nearest_loop ps px (i + 1) bestIndex bestDist)"

text \<open>
  \<open>v << 2\<close>: the operand is converted to a signed 32-bit integer, shifted, and the
  result is again a signed 32-bit integer.
\<close>

definition shl2 :: "int \<Rightarrow> int" where
  "shl2 v = sint (push_bit 2 (word_of_int v :: 32 word))"

text \<open>
  A decoded PNG as \<open>pngjs\<close> hands it to the \<open>parsed\<close> handler: width, height and the RGBA
  bytes, four per pixel, row by row. \<open>pixel_at\<close> is the read of the three colour channels
  of pixel \<open>(x, y)\<close> at \<open>idx = (y * this.width + x) << 2\<close>.
\<close>

record png =
  png_width :: int
  png_height :: int
  png_data :: u8array

definition pixel_at :: "png \<Rightarrow> int \<Rightarrow> int \<Rightarrow> rgb" where
  "pixel_at img x y =
    (let idx = shl2 (y * png_width img + x)
     in (u8_get (png_data img) idx, u8_get (png_data img) (idx + 1),
         u8_get (png_data img) (idx + 2)))"

text \<open>
  The two loops of the \<open>parsed\<close> handler: \<open>load_x\<close> over \<open>x < w\<close> (inner) and \<open>load_y\<close> over
  \<open>y < h\<close> (outer); each pixel is quantised and stored with \<open>setPixel\<close>, whose boolean
  result is discarded.
\<close>

function load_x :: "png \<Rightarrow> rgb list \<Rightarrow> int \<Rightarrow> int \<Rightarrow> int \<Rightarrow> canvas \<Rightarrow> canvas" where
  "load_x img palette w y x c =
    (if x < w then
       let bestIndex = nearest_loop palette (pixel_at img x y) 0 0 Infinity
       in load_x img palette w y (x + 1) (snd (setPixel c x y bestIndex))
     else c)"
  by pat_completeness auto
termination
  by (relation "measure (\<lambda>(img, palette, w, y, x, c). nat (w - x))") auto

function load_y :: "png \<Rightarrow> rgb list \<Rightarrow> int \<Rightarrow> int \<Rightarrow> int \<Rightarrow> canvas \<Rightarrow> canvas" where
  "load_y img palette w h y c =
    (if y < h then load_y img palette w h (y + 1) (load_x img palette w y 0 c) else c)"
  by pat_completeness auto
termination
  by (relation "measure (\<lambda>(img, palette, w, h, y, c). nat (h - y))") auto

declare load_x.simps [simp del] load_y.simps [simp del]

text \<open>
  The \<open>parsed\<close> handler: the size warning, the palette, the clamped bounds, the loops.
  It runs when decoding has finished, on the canvas as it is at that moment. The
  console output is returned with the canvas.
\<close>

datatype log = NoSnapshot | SizeWarning int int | Loaded | LoadError

definition parsed :: "png \<Rightarrow> canvas \<Rightarrow> canvas \<times> log list" where
  "parsed img c =
    (let warning =
           (if png_width img \<noteq> CANVAS_SIZE \<or> png_height img \<noteq> CANVAS_SIZE
            then [SizeWarning (png_width img) (png_height img)] else []);
         w = min (png_width img) CANVAS_SIZE;
         h = min (png_height img) CANVAS_SIZE
     in (load_y img paletteRGB w h 0 c, warning @ [Loaded]))"

text \<open>
  \<open>loadCanvasFromPNG\<close>: the snapshot file is missing (the canvas stays as it is); or it
  decodes to an image and the \<open>parsed\<close> handler runs; or it is cut after its image data,
  so that the \<open>parsed\<close> handler runs on the image and the \<open>error\<close> handler logs
  afterwards; or decoding fails before any image is delivered and only the error is
  logged.
\<close>

datatype snapshot = Missing | Decoded png | Truncated png | Corrupt

definition loadCanvasFromPNG :: "snapshot \<Rightarrow> canvas \<Rightarrow> canvas \<times> log list" where
  "loadCanvasFromPNG file c =
    (case file of
       Missing \<Rightarrow> (c, [NoSnapshot])
     | Decoded img \<Rightarrow> parsed img c
     | Truncated img \<Rightarrow> (case parsed img c of (c', logs) \<Rightarrow> (c', logs @ [LoadError]))
     | Corrupt \<Rightarrow> (c, [LoadError]))"

text \<open>
  \<open>exportCanvasToPNG\<close> fills the RGBA buffer of a new \<open>CANVAS_SIZE\<close> x \<open>CANVAS_SIZE\<close> image:
  \<open>export_loop\<close> is its loop over the cells, \<open>COLORS[colorIndex] || '#000000'\<close> the colour
  of a cell. The image is then packed and written to a temporary file that is renamed
  to the snapshot path; packing and decoding a PNG are lossless, so the image read back
  by \<open>loadCanvasFromPNG\<close> is the image built here.
\<close>

function export_loop :: "canvas \<Rightarrow> int \<Rightarrow> u8array \<Rightarrow> u8array" where
  "export_loop c i d =
    (if i < int (length c) then
       let colorIndex = u8_get c i;
           color =
             (case colorIndex of
                Some k \<Rightarrow> if k < int (length COLORS) then COLORS ! nat k else ''#000000''
              | None \<Rightarrow> ''#000000'');
           r = parseInt16 (slice color 1 3);
           g = parseInt16 (slice color 3 5);
           b = parseInt16 (slice color 5 7);
           idx = shl2 i;
           d1 = u8_set d idx r;
           d2 = u8_set d1 (idx + 1) g;
           d3 = u8_set d2 (idx + 2) b;
           d4 = u8_set d3 (idx + 3) (Some 255)
       in export_loop c (i + 1) d4
     else d)"
  by pat_completeness auto
termination
  by (relation "measure (\<lambda>(c, i, d). nat (int (length c) - i))") auto

declare export_loop.simps [simp del]

definition exportCanvasToPNG :: "canvas \<Rightarrow> png" where
  "exportCanvasToPNG c =
    \<lparr>png_width = CANVAS_SIZE, png_height = CANVAS_SIZE,
     png_data = export_loop c 0 (replicate (nat (4 * CANVAS_SIZE * CANVAS_SIZE)) 0)\<rparr>"

subsection \<open>Saving snapshots\<close>

text \<open>
  At most one export at a time: the flag \<open>_isSaving\<close>. An export is started by
  \<open>POST /save-snapshot\<close> or by \<open>saveAndExit\<close> (on \<open>SIGINT\<close>, \<open>SIGTERM\<close> or an uncaught
  exception) and settles later, when its promise resolves or rejects. Handlers run one
  at a time, so the process is a state machine over these events: \<open>exporting\<close> lists the
  exports in progress, \<open>exited\<close> says whether \<open>process.exit\<close> has been called. The HTTP handler
  answers 409 while the flag is set; otherwise it sets the flag, starts an export and,
  when that settles, clears the flag and answers 200 or 500. \<open>saveAndExit\<close> returns at
  once while the flag is set; otherwise it sets the flag, starts an export and exits
  when that settles.
\<close>

datatype save_origin = HttpSave | ShutdownSave

record process =
  isSaving :: bool
  exporting :: "save_origin list"
  exited :: bool

definition process_init :: process where
  "process_init = \<lparr>isSaving = False, exporting = [], exited = False\<rparr>"

datatype save_event =
  PostSaveSnapshot
| Signal
| ExportSettled save_origin bool

datatype save_output =
  Status409
| Status200
| Status500
| ExportStarted save_origin
| ProcessExit

fun save_step :: "process \<Rightarrow> save_event \<Rightarrow> process \<times> save_output list" where
  "save_step p PostSaveSnapshot =
     (if exited p then (p, [])
      else if isSaving p then (p, [Status409])
      else (p\<lparr>isSaving := True, exporting := exporting p @ [HttpSave]\<rparr>, [ExportStarted HttpSave]))"
| "save_step p Signal =
     (if exited p then (p, [])
      else if isSaving p then (p, [])
      else (p\<lparr>isSaving := True, exporting := exporting p @ [ShutdownSave]\<rparr>,
            [ExportStarted ShutdownSave]))"
| "save_step p (ExportSettled HttpSave ok) =
     (if exited p \<or> HttpSave \<notin> set (exporting p) then (p, [])
      else (p\<lparr>isSaving := False, exporting := remove1 HttpSave (exporting p)\<rparr>,
            [if ok then Status200 else Status500]))"
| "save_step p (ExportSettled ShutdownSave ok) =
     (if exited p \<or> ShutdownSave \<notin> set (exporting p) then (p, [])
      else (p\<lparr>exporting := remove1 ShutdownSave (exporting p), exited := True\<rparr>,
            [ProcessExit]))"

fun save_run :: "process \<Rightarrow> save_event list \<Rightarrow> process \<times> save_output list" where
  "save_run p [] = (p, [])"
| "save_run p (e # es) =
     (case save_step p e of
        (p1, out) \<Rightarrow> (case save_run p1 es of (p2, outs) \<Rightarrow> (p2, out @ outs)))"

subsection \<open>Vocabulary of the properties\<close>

text \<open>
  \<open>in_canvas\<close> is the bounds test that \<open>setPixel\<close> and \<open>getRegion\<close> both write out;
  \<open>region_cell\<close> is what one pass of the inner loop of \<open>getRegion\<close> leaves at index \<open>k\<close>
  of the region for the world coordinate \<open>(wx, wy)\<close>. \<open>region_row\<close> and \<open>region_rows\<close> are the
  two loops of \<open>getRegion\<close> with counters that always advance; they are total, and the
  loops of the model return their results as long as the counters stay below \<open>2 ^ 53\<close>.
\<close>

definition in_canvas :: "int \<Rightarrow> int \<Rightarrow> bool" where
  "in_canvas x y = (x \<ge> 0 \<and> x < CANVAS_SIZE \<and> y \<ge> 0 \<and> y < CANVAS_SIZE)"

definition region_cell :: "canvas \<Rightarrow> u8array \<Rightarrow> int \<Rightarrow> int \<Rightarrow> int \<Rightarrow> int option" where
  "region_cell c region k wx wy =
     (if in_canvas wx wy then u8_get (u8_set region k (getPixel c wx wy)) k else u8_get region k)"

function region_row :: "canvas \<Rightarrow> int \<Rightarrow> int \<Rightarrow> int \<Rightarrow> int \<Rightarrow> int \<Rightarrow> u8array \<Rightarrow> u8array" where
  "region_row c x y width dy dx region =
    (if dx < width then
       let worldX = x + dx;
           worldY = y + dy;
           region' =
             (if worldX \<ge> 0 \<and> worldX < CANVAS_SIZE \<and> worldY \<ge> 0 \<and> worldY < CANVAS_SIZE
              then u8_set region (dy * width + dx) (u8_get c (getPixelIndex worldX worldY))
              else region)
       in region_row c x y width dy (dx + 1) region'
     else region)"
  by pat_completeness auto
termination
  by (relation "measure (\<lambda>(c, x, y, width, dy, dx, region). nat (width - dx))") auto

function region_rows :: "canvas \<Rightarrow> int \<Rightarrow> int \<Rightarrow> int \<Rightarrow> int \<Rightarrow> int \<Rightarrow> u8array \<Rightarrow> u8array" where
  "region_rows c x y width height dy region =
    (if dy < height
     then region_rows c x y width height (dy + 1) (region_row c x y width dy 0 region)
     else region)"
  by pat_completeness auto
termination
  by (relation "measure (\<lambda>(c, x, y, width, height, dy, region). nat (height - dy))") auto

declare region_row.simps [simp del] region_rows.simps [simp del]

text \<open>
  A loop counter \<open>n\<close> that has started at 0 and runs to a bound above \<open>2 ^ 53\<close>: it will
  stop advancing before it reaches the bound.
\<close>

definition counter_stuck :: "int \<Rightarrow> int \<Rightarrow> bool" where
  "counter_stuck bound n = (0 \<le> n \<and> n \<le> 2 ^ 53 \<and> 2 ^ 53 < bound)"

text \<open>
  For the snapshot codec: the palette as integer triples; the squared distance on
  integer triples; \<open>first_argmin ps q j\<close>, which says that entry \<open>j\<close> of \<open>ps\<close> is at least as
  near to \<open>q\<close> as every entry and strictly nearer than every earlier one; \<open>load_cell\<close>, the
  index the loader computes for pixel \<open>(x, y)\<close>; the overlap of image and canvas; a
  well-formed image; \<open>image_rgb\<close>, the colour channels of pixel \<open>(x, y)\<close> in the image data.
\<close>

definition palette_ints :: "(int \<times> int \<times> int) list" where
  "palette_ints =
    [(255, 255, 255), (228, 228, 228), (136, 136, 136), (34, 34, 34),
     (255, 167, 209), (229, 0, 0), (229, 149, 0), (160, 106, 66),
     (229, 217, 0), (148, 224, 68), (2, 190, 1), (0, 211, 221),
     (0, 131, 199), (0, 0, 234), (207, 110, 228), (130, 0, 128)]"

definition some_rgb :: "int \<times> int \<times> int \<Rightarrow> rgb" where
  "some_rgb q = (case q of (r, g, b) \<Rightarrow> (Some r, Some g, Some b))"

definition sqdist :: "int \<times> int \<times> int \<Rightarrow> int \<times> int \<times> int \<Rightarrow> int" where
  "sqdist q p =
    (case (q, p) of
       ((r, g, b), (pr, pg, pb)) \<Rightarrow> (r - pr) * (r - pr) + (g - pg) * (g - pg) + (b - pb) * (b - pb))"

definition first_argmin :: "(int \<times> int \<times> int) list \<Rightarrow> int \<times> int \<times> int \<Rightarrow> nat \<Rightarrow> bool" where
  "first_argmin ps q j \<longleftrightarrow>
     j < length ps
     \<and> list_all (\<lambda>p. sqdist q (ps ! j) \<le> sqdist q p) ps
     \<and> list_all (\<lambda>p. sqdist q (ps ! j) < sqdist q p) (take j ps)"

definition load_cell :: "png \<Rightarrow> int \<Rightarrow> int \<Rightarrow> int" where
  "load_cell img x y = nearest_loop paletteRGB (pixel_at img x y) 0 0 Infinity"

definition overlap :: "png \<Rightarrow> int \<Rightarrow> int \<Rightarrow> bool" where
  "overlap img x y =
     (0 \<le> x \<and> x < png_width img \<and> x < CANVAS_SIZE \<and> 0 \<le> y \<and> y < png_height img \<and> y < CANVAS_SIZE)"

definition png_ok :: "png \<Rightarrow> bool" where
  "png_ok img =
     (0 \<le> png_width img \<and> 0 \<le> png_height img
      \<and> int (length (png_data img)) = 4 * png_width img * png_height img)"

definition image_rgb :: "png \<Rightarrow> int \<Rightarrow> int \<Rightarrow> rgb" where
  "image_rgb img x y =
     (u8_get (png_data img) (4 * (y * png_width img + x)),
      u8_get (png_data img) (4 * (y * png_width img + x) + 1),
      u8_get (png_data img) (4 * (y * png_width img + x) + 2))"

text \<open>
  An image 300000 pixels wide and 1791 pixels high, every byte 34 (colour \<open>#222222\<close>).
\<close>

definition wide_image :: png where
  "wide_image = \<lparr>png_width = 300000, png_height = 1791, png_data = replicate 2149200000 34\<rparr>"

text \<open>
  For the exporter: the colour of cell \<open>i\<close>, one pass of the export loop, the bytes
  stored for an RGB triple, and canvases whose cells are all palette indices.
\<close>

definition export_color :: "canvas \<Rightarrow> int \<Rightarrow> string" where
  "export_color c i =
    (case u8_get c i of
       Some k \<Rightarrow> if k < int (length COLORS) then COLORS ! nat k else ''#000000''
     | None \<Rightarrow> ''#000000'')"

definition export_step :: "canvas \<Rightarrow> int \<Rightarrow> u8array \<Rightarrow> u8array" where
  "export_step c i d =
    (case hexToRGB (export_color c i) of
       (r, g, b) \<Rightarrow>
         u8_set (u8_set (u8_set (u8_set d (shl2 i) r) (shl2 i + 1) g) (shl2 i + 2) b)
           (shl2 i + 3) (Some 255))"

definition rgb_bytes :: "rgb \<Rightarrow> rgb" where
  "rgb_bytes p =
    (case p of (r, g, b) \<Rightarrow>
       (Some (uint (ToUint8 r)), Some (uint (ToUint8 g)), Some (uint (ToUint8 b))))"

definition valid_canvas :: "canvas \<Rightarrow> bool" where
  "valid_canvas c = list_all (\<lambda>v. v < 16) c"

text \<open>
  The invariant of the save state machine.
\<close>

definition save_inv :: "process \<Rightarrow> bool" where
  "save_inv p \<longleftrightarrow>
     length (exporting p) \<le> 1 \<and> (exited p \<or> (isSaving p \<longleftrightarrow> exporting p \<noteq> []))"

section \<open>Properties\<close>

subsection \<open>Helper facts\<close>

lemma length_COLORS: "length COLORS = 16"
  by (simp add: COLORS_def)

lemma canvas_ok_init: "canvas_ok canvas_init"
  by (simp add: canvas_ok_def canvas_init_def)

lemma length_u8_set: "length (u8_set a i v) = length a"
  by (simp add: u8_set_def)

lemma u8_get_u8_set_same:
  "0 \<le> i \<Longrightarrow> i < int (length a) \<Longrightarrow> u8_get (u8_set a i v) i = Some (uint (ToUint8 v))"
  by (simp add: u8_get_def u8_set_def)

lemma uint_ToUint8_small: "0 \<le> n \<Longrightarrow> n < 256 \<Longrightarrow> uint (ToUint8 (Some n)) = n"
  by (simp add: ToUint8_def uint_word_of_int take_bit_eq_mod)

lemma pixel_index_in_range:
  "0 \<le> x \<Longrightarrow> x < CANVAS_SIZE \<Longrightarrow> 0 \<le> y \<Longrightarrow> y < CANVAS_SIZE \<Longrightarrow>
     0 \<le> getPixelIndex x y \<and> getPixelIndex x y < CANVAS_SIZE * CANVAS_SIZE"
  by (simp add: getPixelIndex_def CANVAS_SIZE_def)

subsection \<open>C1: set then get\<close>

text \<open>
  Claim C1. For integer coordinates inside the canvas and a colour index in the palette
  range, \<open>setPixel\<close> returns true and \<open>getPixel\<close> on the resulting canvas returns the
  colour index that was set.
\<close>

theorem C1_set_then_get:
  assumes "canvas_ok c"
    and "0 \<le> x" and "x < CANVAS_SIZE" and "0 \<le> y" and "y < CANVAS_SIZE"
    and "0 \<le> colorIndex" and "colorIndex < 16"
  shows "fst (setPixel c x y colorIndex) = True
       \<and> getPixel (snd (setPixel c x y colorIndex)) x y = Some colorIndex"
proof -
  from assms have idx: "0 \<le> getPixelIndex x y" "getPixelIndex x y < int (length c)"
    using pixel_index_in_range [of x y] by (simp_all add: canvas_ok_def)
  have res: "setPixel c x y colorIndex = (True, u8_set c (getPixelIndex x y) (Some colorIndex))"
    using assms by (simp add: setPixel_def length_COLORS)
  have "u8_get (u8_set c (getPixelIndex x y) (Some colorIndex)) (getPixelIndex x y)
          = Some (uint (ToUint8 (Some colorIndex)))"
    using idx by (rule u8_get_u8_set_same)
  also have "uint (ToUint8 (Some colorIndex)) = colorIndex"
    using assms by (intro uint_ToUint8_small) simp_all
  finally show ?thesis
    by (simp add: res getPixel_def)
qed

theorem C1_set_then_get_witness:
  "fst (setPixel canvas_init 1999 0 15) = True
     \<and> getPixel (snd (setPixel canvas_init 1999 0 15)) 1999 0 = Some 15"
  using C1_set_then_get [of canvas_init 1999 0 15]
  by (simp add: canvas_ok_init CANVAS_SIZE_def)

subsection \<open>C2: rejected writes\<close>

text \<open>
  On integer arguments \<open>setPixel\<close> rejects exactly as the guards read: a coordinate
  outside the canvas or a colour index outside the palette range gives false and the
  canvas unchanged. \<open>setPixel_value\<close> agrees with \<open>setPixel\<close> on integer colours.
\<close>

lemma setPixel_rejects:
  assumes "x < 0 \<or> x \<ge> CANVAS_SIZE \<or> y < 0 \<or> y \<ge> CANVAS_SIZE
             \<or> colorIndex < 0 \<or> colorIndex \<ge> 16"
  shows "setPixel c x y colorIndex = (False, c)"
  using assms by (auto simp: setPixel_def length_COLORS)

lemma setPixel_value_Some: "setPixel_value c x y (Some colorIndex) = setPixel c x y colorIndex"
  by (simp add: setPixel_value_def setPixel_def js_lt_def js_ge_def)

text \<open>
  Claim C2. A colour index outside the palette range should make \<open>setPixel\<close> return false
  and leave the canvas unchanged. A colour that converts to \<open>NaN\<close> (the string \<open>'red'\<close>, a
  missing field) is not a palette index, but it is neither below 0 nor at least 16 for the
  comparisons of the guards: \<open>setPixel\<close> returns true and stores 0 in the cell, here a
  cell that held 5.
\<close>

theorem C2_nan_colour_accepted:
  "getPixel (canvas_init[0 := 5]) 0 0 = Some 5
   \<and> fst (setPixel_value (canvas_init[0 := 5]) 0 0 None) = True
   \<and> getPixel (snd (setPixel_value (canvas_init[0 := 5]) 0 0 None)) 0 0 = Some 0"
  by (simp add: setPixel_value_def js_lt_def js_ge_def getPixel_def getPixelIndex_def
      u8_get_def u8_set_def ToUint8_def canvas_init_def CANVAS_SIZE_def)

subsection \<open>C3: reading a region\<close>

lemma u8_get_u8_set_other: "i \<noteq> k \<Longrightarrow> u8_get (u8_set a i v) k = u8_get a k"
  by (auto simp: u8_get_def u8_set_def)

lemma u8_get_u8_set_eq:
  "u8_get (u8_set a i v) i = (if 0 \<le> i \<and> i < int (length a) then Some (uint (ToUint8 v)) else None)"
  by (auto simp: u8_get_def u8_set_def)

lemma length_region_row: "length (region_row c x y width dy dx region) = length region"
proof (induction c x y width dy dx region rule: region_row.induct)
  case (1 c x y width dy dx region)
  show ?case
    by (subst region_row.simps) (simp add: 1 Let_def length_u8_set)
qed

lemma length_region_rows: "length (region_rows c x y width height dy region) = length region"
proof (induction c x y width height dy region rule: region_rows.induct)
  case (1 c x y width height dy region)
  show ?case
    by (subst region_rows.simps) (simp add: 1 length_region_row)
qed

lemma region_row_other:
  "k < dy * width + dx \<or> dy * width + width \<le> k \<Longrightarrow>
     u8_get (region_row c x y width dy dx region) k = u8_get region k"
proof (induction c x y width dy dx region rule: region_row.induct)
  case (1 c x y width dy dx region)
  show ?case
  proof (cases "dx < width")
    case True
    with 1 show ?thesis
      by (subst region_row.simps) (auto simp: Let_def u8_get_u8_set_other)
  next
    case False
    then show ?thesis by (subst region_row.simps) simp
  qed
qed

lemma region_row_at:
  "dx \<le> j \<Longrightarrow> j < width \<Longrightarrow>
     u8_get (region_row c x y width dy dx region) (dy * width + j)
       = region_cell c region (dy * width + j) (x + j) (y + dy)"
proof (induction c x y width dy dx region rule: region_row.induct)
  case (1 c x y width dy dx region)
  from 1 have lt: "dx < width" by simp
  show ?case
  proof (cases "j = dx")
    case True
    show ?thesis
      using lt True
      by (subst region_row.simps)
         (simp add: Let_def region_row_other region_cell_def in_canvas_def getPixel_def)
  next
    case False
    with 1 have "dx + 1 \<le> j" by simp
    then show ?thesis
      using lt False 1
      by (subst region_row.simps)
         (auto simp: Let_def region_cell_def u8_get_u8_set_other u8_get_u8_set_eq length_u8_set)
  qed
qed


lemma region_cell_cong:
  "length r' = length r \<Longrightarrow> u8_get r' k = u8_get r k \<Longrightarrow>
     region_cell c r' k wx wy = region_cell c r k wx wy"
  by (simp add: region_cell_def u8_get_u8_set_eq)

lemma region_rows_other:
  "0 \<le> width \<Longrightarrow> k < dy * width \<Longrightarrow>
     u8_get (region_rows c x y width height dy region) k = u8_get region k"
proof (induction c x y width height dy region rule: region_rows.induct)
  case (1 c x y width height dy region)
  show ?case
  proof (cases "dy < height")
    case True
    from 1(2,3) have "k < (dy + 1) * width"
      by (simp add: algebra_simps)
    with 1 True show ?thesis
      by (subst region_rows.simps) (simp add: region_row_other)
  next
    case False
    then show ?thesis by (subst region_rows.simps) simp
  qed
qed

lemma region_rows_at:
  "0 \<le> j \<Longrightarrow> j < width \<Longrightarrow> dy \<le> i \<Longrightarrow> i < height \<Longrightarrow>
     u8_get (region_rows c x y width height dy region) (i * width + j)
       = region_cell c region (i * width + j) (x + j) (y + i)"
proof (induction c x y width height dy region rule: region_rows.induct)
  case (1 c x y width height dy region)
  from 1 have lt: "dy < height" and w: "0 \<le> width" by simp_all
  let ?row = "region_row c x y width dy 0 region"
  have unfold: "region_rows c x y width height dy region
                  = region_rows c x y width height (dy + 1) ?row"
    using lt by (subst region_rows.simps) simp
  show ?case
  proof (cases "i = dy")
    case True
    have "i * width + j < (dy + 1) * width"
      using True 1(3) by (simp add: algebra_simps)
    then have "u8_get (region_rows c x y width height (dy + 1) ?row) (i * width + j)
                 = u8_get ?row (i * width + j)"
      using w by (rule region_rows_other [rotated])
    also have "\<dots> = region_cell c region (i * width + j) (x + j) (y + i)"
      using True 1(2,3) region_row_at [of 0 j width c x y dy region] by simp
    finally show ?thesis by (simp add: unfold)
  next
    case False
    with 1 have le: "dy + 1 \<le> i" by simp
    then have "(dy + 1) * width \<le> i * width"
      using w by (rule mult_right_mono)
    then have far: "dy * width + width \<le> i * width + j"
      using 1(2) by (simp add: algebra_simps)
    have "u8_get (region_rows c x y width height (dy + 1) ?row) (i * width + j)
            = region_cell c ?row (i * width + j) (x + j) (y + i)"
      using 1(1) [OF lt 1(2,3) le 1(5)] .
    also have "\<dots> = region_cell c region (i * width + j) (x + j) (y + i)"
      using far by (intro region_cell_cong) (simp_all add: length_region_row region_row_other)
    finally show ?thesis by (simp add: unfold)
  qed
qed

lemma region_index_bound:
  fixes i j width height :: int
  assumes "0 \<le> j" "j < width" "0 \<le> i" "i < height"
  shows "0 \<le> i * width + j \<and> i * width + j < width * height"
proof -
  have "i * width + j < (i + 1) * width"
    using assms by (simp add: algebra_simps)
  also have "(i + 1) * width \<le> height * width"
    using assms by (intro mult_right_mono) simp_all
  finally show ?thesis
    using assms by (simp add: mult.commute)
qed

lemma u8_get_canvas:
  "canvas_ok c \<Longrightarrow> in_canvas wx wy \<Longrightarrow>
     getPixel c wx wy = Some (uint (c ! nat (getPixelIndex wx wy)))"
  using pixel_index_in_range [of wx wy]
  by (simp add: getPixel_def u8_get_def canvas_ok_def in_canvas_def)

lemma ToUint8_uint: "ToUint8 (Some (uint (w :: 8 word))) = w"
  by (simp add: ToUint8_def)

lemma region_cell_value:
  assumes "canvas_ok c" "0 \<le> k" "k < int (length region)" "u8_get region k = Some 0"
  shows "region_cell c region k wx wy = (if in_canvas wx wy then getPixel c wx wy else Some 0)"
  using assms u8_get_canvas [of c wx wy]
  by (simp add: region_cell_def u8_get_u8_set_eq ToUint8_uint)

lemma u8_get_replicate_zero:
  "0 \<le> k \<Longrightarrow> k < int n \<Longrightarrow> u8_get (replicate n 0) k = Some 0"
  by (simp add: u8_get_def)

lemma region_rows_spec:
  assumes "canvas_ok c" and "0 \<le> width" and "0 \<le> height"
  shows "int (length (region_rows c x y width height 0 (replicate (nat (width * height)) 0)))
           = width * height
      \<and> (\<forall>dx dy. 0 \<le> dx \<and> dx < width \<and> 0 \<le> dy \<and> dy < height \<longrightarrow>
            u8_get (region_rows c x y width height 0 (replicate (nat (width * height)) 0))
                (dy * width + dx)
              = (if in_canvas (x + dx) (y + dy) then getPixel c (x + dx) (y + dy) else Some 0))
      \<and> ((\<forall>dx dy. 0 \<le> dx \<and> dx < width \<and> 0 \<le> dy \<and> dy < height \<longrightarrow>
              \<not> in_canvas (x + dx) (y + dy))
           \<longrightarrow> region_rows c x y width height 0 (replicate (nat (width * height)) 0)
                 = replicate (nat (width * height)) 0)"
proof -
  let ?n = "nat (width * height)"
  let ?zero = "replicate ?n (0 :: 8 word)"
  let ?region = "region_rows c x y width height 0 ?zero"
  from assms have nonneg: "0 \<le> width * height" by simp
  have len: "int (length ?region) = width * height"
    using nonneg by (simp add: length_region_rows)
  have cells: "u8_get ?region (dy * width + dx)
      = (if in_canvas (x + dx) (y + dy) then getPixel c (x + dx) (y + dy) else Some 0)"
    if "0 \<le> dx" "dx < width" "0 \<le> dy" "dy < height" for dx dy
  proof -
    from that have b: "0 \<le> dy * width + dx" "dy * width + dx < width * height"
      using region_index_bound [of dx width dy height] by simp_all
    have "u8_get ?region (dy * width + dx) = region_cell c ?zero (dy * width + dx) (x + dx) (y + dy)"
      using that by (intro region_rows_at) simp_all
    also have "\<dots> = (if in_canvas (x + dx) (y + dy) then getPixel c (x + dx) (y + dy) else Some 0)"
      using assms(1) b nonneg by (intro region_cell_value) (simp_all add: u8_get_replicate_zero)
    finally show ?thesis .
  qed
  have zero: "?region = ?zero"
    if out: "\<forall>dx dy. 0 \<le> dx \<and> dx < width \<and> 0 \<le> dy \<and> dy < height \<longrightarrow> \<not> in_canvas (x + dx) (y + dy)"
  proof (rule nth_equalityI)
    show "length ?region = length ?zero"
      by (simp add: length_region_rows)
  next
    fix k assume "k < length ?region"
    then have k: "int k < width * height"
      using len by simp
    then have wpos: "0 < width"
      using assms(2,3) by (cases "width = 0") simp_all
    define dy where "dy = int k div width"
    define dx where "dx = int k mod width"
    have dx: "0 \<le> dx" "dx < width" and dy0: "0 \<le> dy"
      using wpos by (simp_all add: dx_def dy_def pos_imp_zdiv_nonneg_iff)
    have eq: "dy * width + dx = int k"
      by (simp add: dx_def dy_def)
    have dy: "dy < height"
    proof (rule ccontr)
      assume "\<not> dy < height"
      then have "height * width \<le> dy * width"
        using wpos by (intro mult_right_mono) simp_all
      with eq dx k show False by (simp add: mult.commute)
    qed
    have "u8_get ?region (int k) = Some 0"
      using cells [OF dx dy0 dy] out dx dy0 dy by (simp add: eq)
    then have "uint (?region ! k) = 0"
      using k len by (simp add: u8_get_def split: if_splits)
    then have "?region ! k = 0"
      by (simp add: uint_0_iff)
    then show "?region ! k = ?zero ! k"
      using k nonneg by simp
  qed
  show ?thesis
    using len cells zero by blast
qed

lemma getRegion_dx_returns:
  "0 \<le> dx \<Longrightarrow> width \<le> 2 ^ 53 \<Longrightarrow>
     getRegion_dx c x y width dy dx region = Some (region_row c x y width dy dx region)"
proof (induction c x y width dy dx region rule: region_row.induct)
  case (1 c x y width dy dx region)
  show ?case
  proof (cases "dx < width")
    case True
    with 1(3) have inc: "js_inc dx = dx + 1"
      by (simp add: js_inc_def)
    from 1(2) have "0 \<le> dx + 1"
      by simp
    from 1(1) [OF True refl refl refl this 1(3)] True show ?thesis
      by (subst getRegion_dx.simps, subst region_row.simps) (simp add: inc Let_def)
  next
    case False
    then show ?thesis
      by (subst getRegion_dx.simps, subst region_row.simps) simp
  qed
qed

lemma getRegion_dy_returns:
  "0 \<le> dy \<Longrightarrow> height \<le> 2 ^ 53 \<Longrightarrow> width \<le> 2 ^ 53 \<Longrightarrow>
     getRegion_dy c x y width height dy region
       = Some (region_rows c x y width height dy region)"
proof (induction c x y width height dy region rule: region_rows.induct)
  case (1 c x y width height dy region)
  show ?case
  proof (cases "dy < height")
    case True
    with 1(3) have inc: "js_inc dy = dy + 1"
      by (simp add: js_inc_def)
    from 1(2) have next_dy: "0 \<le> dy + 1"
      by simp
    have row: "getRegion_dx c x y width dy 0 region = Some (region_row c x y width dy 0 region)"
      using 1(4) by (intro getRegion_dx_returns) simp_all
    from 1(1) [OF True next_dy 1(3,4)] True show ?thesis
      by (subst getRegion_dy.simps, subst region_rows.simps) (simp add: inc row)
  next
    case False
    then show ?thesis
      by (subst getRegion_dy.simps, subst region_rows.simps) simp
  qed
qed

lemma getRegion_returns:
  assumes "0 \<le> width" and "0 \<le> height" and "height \<le> 2 ^ 53"
    and "width * height \<le> maxLength" and "width * height \<le> 2 ^ 53 - 1"
  shows "getRegion maxLength c x y width height
           = Some (Inr (region_rows c x y width height 0 (replicate (nat (width * height)) 0)))"
proof (cases "height = 0")
  case True
  have "getRegion_dy c x y width height 0 (replicate (nat (width * height)) 0)
          = Some (region_rows c x y width height 0 (replicate (nat (width * height)) 0))"
    using True by (subst getRegion_dy.simps, subst region_rows.simps) simp
  with True assms(4) show ?thesis
    by (simp add: getRegion_def)
next
  case False
  with assms(2) have "1 \<le> height"
    by simp
  with assms(1) have "width * 1 \<le> width * height"
    by (intro mult_left_mono) simp_all
  with assms(5) have w: "width \<le> 2 ^ 53"
    by simp
  have nonneg: "0 \<le> width * height"
    using assms(1,2) by simp
  have "getRegion_dy c x y width height 0 (replicate (nat (width * height)) 0)
          = Some (region_rows c x y width height 0 (replicate (nat (width * height)) 0))"
    using assms(3) w by (intro getRegion_dy_returns) simp_all
  with nonneg assms(4,5) show ?thesis
    by (simp add: getRegion_def)
qed

lemma counter_stuck_inc: "counter_stuck bound n \<Longrightarrow> n < bound \<and> counter_stuck bound (js_inc n)"
  by (simp add: counter_stuck_def js_inc_def)

lemma getRegion_dy_stuck:
  assumes "getRegion_dy c x y width height dy region = Some r"
  shows "\<not> counter_stuck height dy"
proof (rule getRegion_dy.raw_induct
    [where P = "\<lambda>c x y width height dy region r. \<not> counter_stuck height dy"
       and xa = "((((((c, x), y), width), height), dy), region)" and ya = r,
     unfolded prod.case])
  fix f :: "canvas \<Rightarrow> int \<Rightarrow> int \<Rightarrow> int \<Rightarrow> int \<Rightarrow> int \<Rightarrow> u8array \<Rightarrow> u8array option"
  fix c x y width height dy region r
  assume IH: "\<And>c x y width height dy region r.
      f c x y width height dy region = Some r \<Longrightarrow> \<not> counter_stuck height dy"
  assume step: "(if dy < height
      then Option.bind (getRegion_dx c x y width dy 0 region) (f c x y width height (js_inc dy))
      else Some region) = Some r"
  show "\<not> counter_stuck height dy"
  proof
    assume a: "counter_stuck height dy"
    with counter_stuck_inc [OF a] step
    obtain region' where "f c x y width height (js_inc dy) region' = Some r"
      by (auto simp: bind_eq_Some_conv)
    from IH [OF this] counter_stuck_inc [OF a] show False
      by simp
  qed
next
  show "getRegion_dy c x y width height dy region = Some r"
    by (rule assms)
qed

text \<open>
  An empty-width rectangle whose height lies above \<open>2 ^ 53\<close> allocates an empty buffer and
  then loops forever: the call does not return.
\<close>

lemma getRegion_never_returns:
  assumes "2 ^ 53 < height" and "0 \<le> maxLength"
  shows "getRegion maxLength c x y 0 height = None"
proof -
  have "getRegion_dy c x y 0 height 0 (replicate (nat (0 * height)) 0) = None"
  proof (cases "getRegion_dy c x y 0 height 0 (replicate (nat (0 * height)) 0)")
    case None
    then show ?thesis .
  next
    case (Some r)
    from getRegion_dy_stuck [OF this] assms(1) show ?thesis
      by (simp add: counter_stuck_def)
  qed
  with assms(2) show ?thesis
    by (simp add: getRegion_def)
qed

text \<open>
  Claim C3, as stated, promises a buffer for every rectangle of non-negative width and
  height. A rectangle of \<open>2 ^ 27\<close> by \<open>2 ^ 27\<close> cells has \<open>2 ^ 54\<close> entries, more than any typed
  array holds, and \<open>getRegion\<close> throws a \<open>RangeError\<close>, even on the engine with the largest
  bound the language allows.
\<close>

theorem C3_getRegion_too_large:
  "getRegion 9007199254740991 canvas_init 0 0 134217728 134217728 = Some (Inl RangeError)"
  by (simp add: getRegion_def)

text \<open>
  Claim C3, amended. For a rectangle of non-negative width and height whose height is at
  most \<open>2 ^ 53\<close> and whose area \<open>width * height\<close> is at most \<open>2 ^ 53 - 1\<close> and at most the
  largest typed-array length of the engine, \<open>getRegion\<close> returns a buffer of exactly
  \<open>width * height\<close> entries. The entry at \<open>dy * width + dx\<close> is 0 when the world coordinate
  \<open>(x + dx, y + dy)\<close> lies outside the canvas and the current value of that cell when it
  lies inside. A rectangle entirely outside the canvas gives the all-zero buffer of the
  requested size.
\<close>

theorem C3_getRegion:
  assumes "canvas_ok c" and "0 \<le> width" and "0 \<le> height" and "height \<le> 2 ^ 53"
    and "width * height \<le> maxLength" and "width * height \<le> 2 ^ 53 - 1"
  shows "\<exists>region. getRegion maxLength c x y width height = Some (Inr region)
      \<and> int (length region) = width * height
      \<and> (\<forall>dx dy. 0 \<le> dx \<and> dx < width \<and> 0 \<le> dy \<and> dy < height \<longrightarrow>
            u8_get region (dy * width + dx)
              = (if in_canvas (x + dx) (y + dy) then getPixel c (x + dx) (y + dy) else Some 0))
      \<and> ((\<forall>dx dy. 0 \<le> dx \<and> dx < width \<and> 0 \<le> dy \<and> dy < height \<longrightarrow>
              \<not> in_canvas (x + dx) (y + dy))
           \<longrightarrow> region = replicate (nat (width * height)) 0)"
  using getRegion_returns [OF assms(2-6), of c x y] region_rows_spec [OF assms(1-3), of x y]
  by blast

theorem C3_getRegion_witness:
  "(\<exists>region. getRegion 4294967295 (canvas_init[3999999 := 7]) 1999 1999 2 2 = Some (Inr region)
      \<and> int (length region) = 4
      \<and> u8_get region 0 = Some 7 \<and> u8_get region 1 = Some 0
      \<and> u8_get region 2 = Some 0 \<and> u8_get region 3 = Some 0)
   \<and> getRegion 4294967295 canvas_init 2000 (- 5) 3 2 = Some (Inr (replicate 6 0))"
proof -
  let ?c = "canvas_init[3999999 := 7]"
  have ok: "canvas_ok ?c"
    by (simp add: canvas_ok_def canvas_init_def CANVAS_SIZE_def)
  have px: "getPixel ?c 1999 1999 = Some 7"
    by (simp add: getPixel_def getPixelIndex_def u8_get_def canvas_init_def CANVAS_SIZE_def)
  obtain region where r: "getRegion 4294967295 ?c 1999 1999 2 2 = Some (Inr region)"
      "int (length region) = 2 * 2"
      "\<forall>dx dy. 0 \<le> dx \<and> dx < 2 \<and> 0 \<le> dy \<and> dy < 2 \<longrightarrow>
         u8_get region (dy * 2 + dx)
           = (if in_canvas (1999 + dx) (1999 + dy) then getPixel ?c (1999 + dx) (1999 + dy)
              else Some 0)"
    using C3_getRegion [OF ok, of 2 2 4294967295 1999 1999] by auto
  from r(3) [rule_format, of 0 0] r(3) [rule_format, of 1 0]
    r(3) [rule_format, of 0 1] r(3) [rule_format, of 1 1]
  have "u8_get region 0 = Some 7" "u8_get region 1 = Some 0"
    "u8_get region 2 = Some 0" "u8_get region 3 = Some 0"
    by (simp_all add: in_canvas_def CANVAS_SIZE_def px)
  with r(1,2) have first: "\<exists>region. getRegion 4294967295 ?c 1999 1999 2 2 = Some (Inr region)
      \<and> int (length region) = 4
      \<and> u8_get region 0 = Some 7 \<and> u8_get region 1 = Some 0
      \<and> u8_get region 2 = Some 0 \<and> u8_get region 3 = Some 0"
    by simp
  have "getRegion 4294967295 canvas_init 2000 (- 5) 3 2 = Some (Inr (replicate 6 0))"
    using C3_getRegion [OF canvas_ok_init, of 3 2 4294967295 2000 "- 5"]
    by (auto simp: in_canvas_def CANVAS_SIZE_def)
  with first show ?thesis by simp
qed

subsection \<open>C4: the cooldown window\<close>

lemma map_of_updateUserCooldown:
  "map_of (updateUserCooldown m t u) = (map_of m)(u \<mapsto> t)"
  by (simp add: updateUserCooldown_def update_conv')

lemma cooldowns_ok_update: "cooldowns_ok m \<Longrightarrow> cooldowns_ok (updateUserCooldown m t u)"
  by (simp add: cooldowns_ok_def updateUserCooldown_def distinct_update)

text \<open>
  Claim C4. An identity without a cooldown record may draw. After \<open>updateUserCooldown\<close>
  at time \<open>t\<close>, \<open>canUserDraw\<close> is false at every time \<open>t'\<close> with \<open>t' - t < COOLDOWN_MS\<close> and
  true at every time \<open>t'\<close> with \<open>t' - t \<ge> COOLDOWN_MS\<close>. The time \<open>t\<close> is a reading of
  \<open>Date.now()\<close>, which is not 0 on a running server (a stored 0 reads as no record).
\<close>

theorem C4_cooldown:
  "(map_of cd uid = None \<longrightarrow> canUserDraw cd now uid)
   \<and> (t \<noteq> 0 \<and> t' - t < COOLDOWN_MS \<longrightarrow> \<not> canUserDraw (updateUserCooldown cd t uid) t' uid)
   \<and> (t' - t \<ge> COOLDOWN_MS \<longrightarrow> canUserDraw (updateUserCooldown cd t uid) t' uid)"
  by (simp add: canUserDraw_def map_of_updateUserCooldown)

theorem C4_cooldown_witness:
  "canUserDraw [] 1700000000000 ''k3j9x0a1z''
   \<and> \<not> canUserDraw (updateUserCooldown [] 1700000000000 ''k3j9x0a1z'') 1700000004999 ''k3j9x0a1z''
   \<and> canUserDraw (updateUserCooldown [] 1700000000000 ''k3j9x0a1z'') 1700000005000 ''k3j9x0a1z''"
  using C4_cooldown [of "[]" "''k3j9x0a1z''" 1700000000000 1700000000000 1700000004999]
    C4_cooldown [of "[]" "''k3j9x0a1z''" 1700000000000 1700000000000 1700000005000]
  by (simp add: COOLDOWN_MS_def)

subsection \<open>C5: processing a draw request\<close>

lemma setPixel_rejected: "\<not> fst (setPixel c x y k) \<Longrightarrow> snd (setPixel c x y k) = c"
  by (auto simp: setPixel_def split: if_splits)

lemma canUserDraw_after_update:
  "canUserDraw (updateUserCooldown cd t uid) t' uid \<longleftrightarrow> t = 0 \<or> COOLDOWN_MS \<le> t' - t"
  by (simp add: canUserDraw_def map_of_updateUserCooldown)

lemma drawPixel_cooldown:
  assumes "\<not> canUserDraw (userCooldowns s) now1 uid"
  shows "\<exists>lastDraw. map_of (userCooldowns s) uid = Some lastDraw
      \<and> drawPixel s uid x y color now1 now2 now3
          = (s, Some (Cooldown (Some (COOLDOWN_MS - (now2 - lastDraw)))))"
  using assms by (auto simp: drawPixel_def canUserDraw_def split: option.splits)

lemma drawPixel_dropped:
  assumes "canUserDraw (userCooldowns s) now1 uid" and "\<not> fst (setPixel (canvas s) x y color)"
  shows "drawPixel s uid x y color now1 now2 now3 = (s, None)"
proof -
  obtain b c where r: "setPixel (canvas s) x y color = (b, c)"
    by (cases "setPixel (canvas s) x y color")
  with assms(2) setPixel_rejected [of "canvas s" x y color] have "\<not> b" "c = canvas s"
    by simp_all
  with assms(1) r show ?thesis
    by (simp add: drawPixel_def)
qed

lemma drawPixel_accepted:
  assumes "canUserDraw (userCooldowns s) now1 uid" and "fst (setPixel (canvas s) x y color)"
  shows "drawPixel s uid x y color now1 now2 now3 =
     (s\<lparr>canvas := snd (setPixel (canvas s) x y color),
        userCooldowns := updateUserCooldown (userCooldowns s) now2 uid,
        pendingUpdates := pendingUpdates s @ [\<lparr>u_x = x, u_y = y, u_color = color\<rparr>]\<rparr>,
      Some (DrawSuccess (now3 + COOLDOWN_MS)))"
proof -
  obtain b c where r: "setPixel (canvas s) x y color = (b, c)"
    by (cases "setPixel (canvas s) x y color")
  with assms show ?thesis
    by (simp add: drawPixel_def)
qed

text \<open>
  Claim C5, as stated, has the acceptance reply carry the timestamp at which the identity
  may draw next. The handler records the cooldown with one reading of the clock and builds
  the reply with a later one. When the clock has advanced in between, here by one
  millisecond, the reply names 1700000005001 while the identity may already draw at
  1700000005000.
\<close>

theorem C5_reply_after_eligibility:
  "snd (drawPixel server_init ''a'' 5 5 3 1700000000000 1700000000000 1700000000001)
     = Some (DrawSuccess 1700000005001)
   \<and> canUserDraw
        (userCooldowns
           (fst (drawPixel server_init ''a'' 5 5 3 1700000000000 1700000000000 1700000000001)))
        1700000005000 ''a''"
  by (simp add: drawPixel_def server_init_def canUserDraw_def updateUserCooldown_def
      setPixel_def CANVAS_SIZE_def COOLDOWN_MS_def length_COLORS)

text \<open>
  Claim C5, amended. A draw request is processed in three exclusive ways. If
  \<open>canUserDraw\<close> is false, the state is left as it was and the only effect is a cooldown
  reply whose remaining time is the window minus the time elapsed since the last accepted
  draw of the identity. Otherwise, if \<open>setPixel\<close> returns false, there is no reply and the
  state is left as it was. Otherwise the cell is written, the cooldown is recorded at the
  reading \<open>now2\<close>, exactly one update \<open>{x, y, color}\<close> is appended to the queue and the reply
  is \<open>drawSuccess\<close> with the timestamp \<open>now3 + COOLDOWN_MS\<close>, where \<open>now3\<close> is the reading of
  the clock when the reply is built. With a clock that does not run backwards the
  identity may draw again from that timestamp on; when the two readings agree, it is
  exactly the first time at which it may.
\<close>

theorem C5_drawPixel:
  "(\<not> canUserDraw (userCooldowns s) now1 uid \<longrightarrow>
      (\<exists>lastDraw. map_of (userCooldowns s) uid = Some lastDraw
         \<and> drawPixel s uid x y color now1 now2 now3
             = (s, Some (Cooldown (Some (COOLDOWN_MS - (now2 - lastDraw)))))))
   \<and> (canUserDraw (userCooldowns s) now1 uid \<and> \<not> fst (setPixel (canvas s) x y color) \<longrightarrow>
        drawPixel s uid x y color now1 now2 now3 = (s, None))
   \<and> (canUserDraw (userCooldowns s) now1 uid \<and> fst (setPixel (canvas s) x y color) \<longrightarrow>
        drawPixel s uid x y color now1 now2 now3 =
          (s\<lparr>canvas := snd (setPixel (canvas s) x y color),
             userCooldowns := updateUserCooldown (userCooldowns s) now2 uid,
             pendingUpdates := pendingUpdates s @ [\<lparr>u_x = x, u_y = y, u_color = color\<rparr>]\<rparr>,
           Some (DrawSuccess (now3 + COOLDOWN_MS)))
        \<and> (now2 \<le> now3 \<longrightarrow>
             (\<forall>t. now3 + COOLDOWN_MS \<le> t \<longrightarrow>
                canUserDraw (updateUserCooldown (userCooldowns s) now2 uid) t uid))
        \<and> (now2 = now3 \<and> now2 \<noteq> 0 \<longrightarrow>
             (\<forall>t. canUserDraw (updateUserCooldown (userCooldowns s) now2 uid) t uid
                   \<longleftrightarrow> now3 + COOLDOWN_MS \<le> t)))"
proof (intro conjI impI)
  assume "\<not> canUserDraw (userCooldowns s) now1 uid"
  then show "\<exists>lastDraw. map_of (userCooldowns s) uid = Some lastDraw
      \<and> drawPixel s uid x y color now1 now2 now3
          = (s, Some (Cooldown (Some (COOLDOWN_MS - (now2 - lastDraw)))))"
    by (rule drawPixel_cooldown)
next
  assume "canUserDraw (userCooldowns s) now1 uid \<and> \<not> fst (setPixel (canvas s) x y color)"
  then show "drawPixel s uid x y color now1 now2 now3 = (s, None)"
    by (simp add: drawPixel_dropped)
next
  assume "canUserDraw (userCooldowns s) now1 uid \<and> fst (setPixel (canvas s) x y color)"
  then show "drawPixel s uid x y color now1 now2 now3 =
          (s\<lparr>canvas := snd (setPixel (canvas s) x y color),
             userCooldowns := updateUserCooldown (userCooldowns s) now2 uid,
             pendingUpdates := pendingUpdates s @ [\<lparr>u_x = x, u_y = y, u_color = color\<rparr>]\<rparr>,
           Some (DrawSuccess (now3 + COOLDOWN_MS)))"
    by (simp add: drawPixel_accepted)
next
  assume "now2 \<le> now3"
  then show "\<forall>t. now3 + COOLDOWN_MS \<le> t \<longrightarrow>
      canUserDraw (updateUserCooldown (userCooldowns s) now2 uid) t uid"
    by (simp add: canUserDraw_after_update)
next
  assume "now2 = now3 \<and> now2 \<noteq> 0"
  then show "\<forall>t. canUserDraw (updateUserCooldown (userCooldowns s) now2 uid) t uid
                   \<longleftrightarrow> now3 + COOLDOWN_MS \<le> t"
    by (auto simp: canUserDraw_after_update)
qed


theorem C5_drawPixel_witness:
  "drawPixel (server_init\<lparr>userCooldowns := [(''a'', 1700000000000)]\<rparr>) ''a'' 6 6 2
       1700000001000 1700000001001 1700000001001
     = (server_init\<lparr>userCooldowns := [(''a'', 1700000000000)]\<rparr>, Some (Cooldown (Some 3999)))
   \<and> drawPixel server_init ''a'' 2000 5 3 1700000000000 1700000000000 1700000000000
     = (server_init, None)
   \<and> drawPixel server_init ''a'' 5 5 3 1700000000000 1700000000000 1700000000000
     = (server_init\<lparr>canvas := snd (setPixel canvas_init 5 5 3),
          userCooldowns := [(''a'', 1700000000000)],
          pendingUpdates := [\<lparr>u_x = 5, u_y = 5, u_color = 3\<rparr>]\<rparr>,
        Some (DrawSuccess 1700000005000))
   \<and> canUserDraw [(''a'', 1700000000000)] 1700000005000 ''a''
   \<and> \<not> canUserDraw [(''a'', 1700000000000)] 1700000004999 ''a''"
proof -
  let ?s1 = "server_init\<lparr>userCooldowns := [(''a'', 1700000000000)]\<rparr>"
  have busy: "\<not> canUserDraw (userCooldowns ?s1) 1700000001000 ''a''"
    by (simp add: canUserDraw_def COOLDOWN_MS_def)
  have free: "canUserDraw (userCooldowns server_init) 1700000000000 ''a''"
    by (simp add: canUserDraw_def server_init_def)
  have bad: "\<not> fst (setPixel (canvas server_init) 2000 5 3)"
    by (simp add: setPixel_def CANVAS_SIZE_def)
  have good: "fst (setPixel (canvas server_init) 5 5 3)"
    by (simp add: setPixel_def CANVAS_SIZE_def length_COLORS)
  have upd: "updateUserCooldown [] 1700000000000 ''a'' = [(''a'', 1700000000000)]"
    by (simp add: updateUserCooldown_def)
  from C5_drawPixel [of ?s1 1700000001000 "''a''" 6 6 2 1700000001001 1700000001001] busy
  have one: "drawPixel ?s1 ''a'' 6 6 2 1700000001000 1700000001001 1700000001001
               = (?s1, Some (Cooldown (Some 3999)))"
    by (auto simp: COOLDOWN_MS_def)
  from C5_drawPixel [of server_init 1700000000000 "''a''" 2000 5 3 1700000000000 1700000000000]
    free bad
  have two: "drawPixel server_init ''a'' 2000 5 3 1700000000000 1700000000000 1700000000000
               = (server_init, None)"
    by simp
  from C5_drawPixel [of server_init 1700000000000 "''a''" 5 5 3 1700000000000 1700000000000]
    free good
  have three: "drawPixel server_init ''a'' 5 5 3 1700000000000 1700000000000 1700000000000
     = (server_init\<lparr>canvas := snd (setPixel canvas_init 5 5 3),
          userCooldowns := [(''a'', 1700000000000)],
          pendingUpdates := [\<lparr>u_x = 5, u_y = 5, u_color = 3\<rparr>]\<rparr>,
        Some (DrawSuccess 1700000005000))"
    and elig: "\<forall>t. canUserDraw [(''a'', 1700000000000)] t ''a'' \<longleftrightarrow> 1700000005000 \<le> t"
    by (simp_all add: upd COOLDOWN_MS_def server_init_def)
  from elig have "canUserDraw [(''a'', 1700000000000)] 1700000005000 ''a''"
    "\<not> canUserDraw [(''a'', 1700000000000)] 1700000004999 ''a''"
    by simp_all
  with one two three show ?thesis by simp
qed

subsection \<open>C6: batches of the broadcast queue\<close>

lemma broadcastTick_empty:
  "pendingUpdates s = [] \<Longrightarrow> broadcastTick s clients = (s, None, [])"
  by (simp add: broadcastTick_def)

lemma broadcastTick_nonempty:
  "pendingUpdates s \<noteq> [] \<Longrightarrow>
     broadcastTick s clients =
       (s\<lparr>pendingUpdates := []\<rparr>, Some (PixelUpdates (pendingUpdates s)),
        map (\<lambda>cl. (client_id cl, PixelUpdates (pendingUpdates s)))
          (filter (\<lambda>cl. readyState cl = OPEN) clients))"
  by (simp add: broadcastTick_def Let_def)

lemma drawPixel_pending:
  "drawPixel s uid x y color now1 now2 now3 = (s', r) \<Longrightarrow>
     pendingUpdates s' =
       pendingUpdates s @
         (case r of Some (DrawSuccess t) \<Rightarrow> [\<lparr>u_x = x, u_y = y, u_color = color\<rparr>] | _ \<Rightarrow> [])"
  by (auto simp: drawPixel_def split: if_splits prod.splits bool.splits)

lemma step_queue:
  "step s e = (s', ob) \<Longrightarrow>
     concat (flushed_batches [ob]) @ pendingUpdates s' = pendingUpdates s @ accepted_draws [ob]"
proof (cases e)
  case (DrawPixel uid x y color now1 now2 now3)
  assume st: "step s e = (s', ob)"
  obtain s1 r where d: "drawPixel s uid x y color now1 now2 now3 = (s1, r)"
    by (cases "drawPixel s uid x y color now1 now2 now3")
  with st DrawPixel have "s' = s1" "ob = Replied uid \<lparr>u_x = x, u_y = y, u_color = color\<rparr> r"
    by simp_all
  with drawPixel_pending [OF d] show ?thesis
    by (auto split: option.splits reply.splits)
next
  case (Tick clients)
  assume st: "step s e = (s', ob)"
  show ?thesis
  proof (cases "pendingUpdates s = []")
    case True
    with st Tick show ?thesis
      by (auto simp: broadcastTick_empty)
  next
    case False
    with st Tick show ?thesis
      by (auto simp: broadcastTick_nonempty)
  qed
qed

lemma flushed_batches_Cons:
  "flushed_batches (ob # obs) = flushed_batches [ob] @ flushed_batches obs"
  by (cases "ob # obs" rule: flushed_batches.cases) auto

lemma accepted_draws_Cons:
  "accepted_draws (ob # obs) = accepted_draws [ob] @ accepted_draws obs"
  by (cases "ob # obs" rule: accepted_draws.cases) auto

lemma run_queue:
  "run s evs = (s', obs) \<Longrightarrow>
     concat (flushed_batches obs) @ pendingUpdates s' = pendingUpdates s @ accepted_draws obs"
proof (induction evs arbitrary: s s' obs)
  case Nil
  then show ?case by simp
next
  case (Cons e evs)
  obtain s1 ob where st: "step s e = (s1, ob)"
    by (cases "step s e")
  obtain s2 obs' where rn: "run s1 evs = (s2, obs')"
    by (cases "run s1 evs")
  from Cons.prems st rn have eq: "s' = s2" "obs = ob # obs'"
    by simp_all
  have h1: "concat (flushed_batches [ob]) @ pendingUpdates s1 = pendingUpdates s @ accepted_draws [ob]"
    using st by (rule step_queue)
  have h2: "concat (flushed_batches obs') @ pendingUpdates s2 = pendingUpdates s1 @ accepted_draws obs'"
    using rn by (rule Cons.IH)
  have "concat (flushed_batches (ob # obs')) @ pendingUpdates s2
          = concat (flushed_batches [ob]) @ (concat (flushed_batches obs') @ pendingUpdates s2)"
    by (subst flushed_batches_Cons) simp
  also have "\<dots> = (concat (flushed_batches [ob]) @ pendingUpdates s1) @ accepted_draws obs'"
    by (simp add: h2)
  also have "\<dots> = pendingUpdates s @ accepted_draws (ob # obs')"
    by (simp only: h1) (simp add: accepted_draws_Cons [of ob obs'])
  finally show ?case
    by (simp only: eq)
qed

lemma step_no_empty_batch: "step s e = (s', ob) \<Longrightarrow> [] \<notin> set (flushed_batches [ob])"
proof (cases e)
  case (DrawPixel uid x y color now1 now2 now3)
  assume "step s e = (s', ob)"
  with DrawPixel show ?thesis
    by (auto split: prod.splits)
next
  case (Tick clients)
  assume "step s e = (s', ob)"
  with Tick show ?thesis
    by (cases "pendingUpdates s = []") (auto simp: broadcastTick_empty broadcastTick_nonempty)
qed

lemma run_no_empty_batch: "run s evs = (s', obs) \<Longrightarrow> [] \<notin> set (flushed_batches obs)"
proof (induction evs arbitrary: s s' obs)
  case Nil
  then show ?case by simp
next
  case (Cons e evs)
  obtain s1 ob where st: "step s e = (s1, ob)"
    by (cases "step s e")
  obtain s2 obs' where rn: "run s1 evs = (s2, obs')"
    by (cases "run s1 evs")
  from Cons.prems st rn have eq: "obs = ob # obs'"
    by simp
  show ?case
    using step_no_empty_batch [OF st] Cons.IH [OF rn]
    by (simp only: eq) (subst flushed_batches_Cons, simp)
qed

lemma run_append:
  "run s (evs @ evs') =
     (case run s evs of (s1, obs) \<Rightarrow> (case run s1 evs' of (s2, obs') \<Rightarrow> (s2, obs @ obs')))"
  by (induction evs arbitrary: s) (auto split: prod.splits)


text \<open>
  Claim C6. A tick on an empty queue sends nothing; a tick on a non-empty queue empties
  it into exactly one batch, sent to every open client. Over any run that starts with
  an empty queue, the flushed batches, concatenated in flush order and followed by the
  updates still queued, are the accepted draws in their order of acceptance; no batch
  is empty; and once a tick has run after the last draw, the concatenation of the
  flushed batches alone is the sequence of accepted draws.
\<close>

theorem C6_broadcast_batches:
  assumes "pendingUpdates s = []"
  shows "concat (flushed_batches (snd (run s evs))) @ pendingUpdates (fst (run s evs))
           = accepted_draws (snd (run s evs))
    \<and> [] \<notin> set (flushed_batches (snd (run s evs)))
    \<and> concat (flushed_batches (snd (run s (evs @ [Tick clients]))))
           = accepted_draws (snd (run s (evs @ [Tick clients])))
    \<and> pendingUpdates (fst (run s (evs @ [Tick clients]))) = []
    \<and> (\<forall>s1. pendingUpdates s1 = [] \<longrightarrow> broadcastTick s1 clients = (s1, None, []))
    \<and> (\<forall>s1. pendingUpdates s1 \<noteq> [] \<longrightarrow>
          broadcastTick s1 clients =
            (s1\<lparr>pendingUpdates := []\<rparr>, Some (PixelUpdates (pendingUpdates s1)),
             map (\<lambda>cl. (client_id cl, PixelUpdates (pendingUpdates s1)))
               (filter (\<lambda>cl. readyState cl = OPEN) clients)))"
proof -
  have inv: "concat (flushed_batches (snd (run s es))) @ pendingUpdates (fst (run s es))
               = accepted_draws (snd (run s es))" for es
    using run_queue [of s es "fst (run s es)" "snd (run s es)"] assms by simp
  have nonempty: "[] \<notin> set (flushed_batches (snd (run s evs)))"
    using run_no_empty_batch [of s evs "fst (run s evs)" "snd (run s evs)"] by simp
  have drained: "pendingUpdates (fst (run s (evs @ [Tick clients]))) = []"
  proof -
    obtain s1 obs where r: "run s evs = (s1, obs)"
      by (cases "run s evs")
    show ?thesis
      by (cases "pendingUpdates s1 = []")
         (simp_all add: run_append r broadcastTick_empty broadcastTick_nonempty)
  qed
  have flushed: "concat (flushed_batches (snd (run s (evs @ [Tick clients]))))
           = accepted_draws (snd (run s (evs @ [Tick clients])))"
    using inv [of "evs @ [Tick clients]"] drained by simp
  show ?thesis
    using inv [of evs] nonempty flushed drained
    by (simp add: broadcastTick_empty broadcastTick_nonempty)
qed

theorem C6_broadcast_batches_witness:
  "concat (flushed_batches (snd (run server_init
      [DrawPixel ''a'' 5 5 3 1700000000000 1700000000000 1700000000000,
       DrawPixel ''a'' 6 6 2 1700000001000 1700000001000 1700000001000,
       DrawPixel ''b'' 7 7 1 1700000001500 1700000001500 1700000001500,
       Tick [\<lparr>client_id = 1, readyState = OPEN\<rparr>, \<lparr>client_id = 2, readyState = CLOSED\<rparr>],
       Tick [\<lparr>client_id = 1, readyState = OPEN\<rparr>],
       DrawPixel ''a'' 6 6 2 1700000005000 1700000005000 1700000005000])))
     @ pendingUpdates (fst (run server_init
      [DrawPixel ''a'' 5 5 3 1700000000000 1700000000000 1700000000000,
       DrawPixel ''a'' 6 6 2 1700000001000 1700000001000 1700000001000,
       DrawPixel ''b'' 7 7 1 1700000001500 1700000001500 1700000001500,
       Tick [\<lparr>client_id = 1, readyState = OPEN\<rparr>, \<lparr>client_id = 2, readyState = CLOSED\<rparr>],
       Tick [\<lparr>client_id = 1, readyState = OPEN\<rparr>],
       DrawPixel ''a'' 6 6 2 1700000005000 1700000005000 1700000005000]))
   = [\<lparr>u_x = 5, u_y = 5, u_color = 3\<rparr>, \<lparr>u_x = 7, u_y = 7, u_color = 1\<rparr>,
      \<lparr>u_x = 6, u_y = 6, u_color = 2\<rparr>]
   \<and> flushed_batches (snd (run server_init
      [DrawPixel ''a'' 5 5 3 1700000000000 1700000000000 1700000000000,
       DrawPixel ''a'' 6 6 2 1700000001000 1700000001000 1700000001000,
       DrawPixel ''b'' 7 7 1 1700000001500 1700000001500 1700000001500,
       Tick [\<lparr>client_id = 1, readyState = OPEN\<rparr>, \<lparr>client_id = 2, readyState = CLOSED\<rparr>],
       Tick [\<lparr>client_id = 1, readyState = OPEN\<rparr>],
       DrawPixel ''a'' 6 6 2 1700000005000 1700000005000 1700000005000]))
   = [[\<lparr>u_x = 5, u_y = 5, u_color = 3\<rparr>, \<lparr>u_x = 7, u_y = 7, u_color = 1\<rparr>]]
   \<and> broadcastTick server_init
        [\<lparr>client_id = 1, readyState = OPEN\<rparr>, \<lparr>client_id = 2, readyState = CLOSED\<rparr>]
     = (server_init, None, [])
   \<and> broadcastTick (server_init\<lparr>pendingUpdates := [\<lparr>u_x = 5, u_y = 5, u_color = 3\<rparr>]\<rparr>)
        [\<lparr>client_id = 1, readyState = OPEN\<rparr>, \<lparr>client_id = 2, readyState = CLOSED\<rparr>]
     = (server_init, Some (PixelUpdates [\<lparr>u_x = 5, u_y = 5, u_color = 3\<rparr>]),
        [(1, PixelUpdates [\<lparr>u_x = 5, u_y = 5, u_color = 3\<rparr>])])"
proof -
  let ?evs = "[DrawPixel ''a'' 5 5 3 1700000000000 1700000000000 1700000000000,
       DrawPixel ''a'' 6 6 2 1700000001000 1700000001000 1700000001000,
       DrawPixel ''b'' 7 7 1 1700000001500 1700000001500 1700000001500,
       Tick [\<lparr>client_id = 1, readyState = OPEN\<rparr>, \<lparr>client_id = 2, readyState = CLOSED\<rparr>],
       Tick [\<lparr>client_id = 1, readyState = OPEN\<rparr>],
       DrawPixel ''a'' 6 6 2 1700000005000 1700000005000 1700000005000]"
  let ?clients = "[\<lparr>client_id = 1, readyState = OPEN\<rparr>, \<lparr>client_id = 2, readyState = CLOSED\<rparr>]"
  let ?s1 = "server_init\<lparr>pendingUpdates := [\<lparr>u_x = 5, u_y = 5, u_color = 3\<rparr>]\<rparr>"
  have obs: "snd (run server_init ?evs) =
     [Replied ''a'' \<lparr>u_x = 5, u_y = 5, u_color = 3\<rparr> (Some (DrawSuccess 1700000005000)),
      Replied ''a'' \<lparr>u_x = 6, u_y = 6, u_color = 2\<rparr> (Some (Cooldown (Some 4000))),
      Replied ''b'' \<lparr>u_x = 7, u_y = 7, u_color = 1\<rparr> (Some (DrawSuccess 1700000006500)),
      Ticked (Some (PixelUpdates [\<lparr>u_x = 5, u_y = 5, u_color = 3\<rparr>, \<lparr>u_x = 7, u_y = 7, u_color = 1\<rparr>]))
        [(1, PixelUpdates [\<lparr>u_x = 5, u_y = 5, u_color = 3\<rparr>, \<lparr>u_x = 7, u_y = 7, u_color = 1\<rparr>])],
      Ticked None [],
      Replied ''a'' \<lparr>u_x = 6, u_y = 6, u_color = 2\<rparr> (Some (DrawSuccess 1700000010000))]"
    by (simp add: server_init_def drawPixel_def broadcastTick_def canUserDraw_def
        updateUserCooldown_def setPixel_def CANVAS_SIZE_def COOLDOWN_MS_def length_COLORS Let_def)
  have init: "pendingUpdates server_init = []"
    by (simp add: server_init_def)
  have facts: "concat (flushed_batches (snd (run server_init ?evs)))
        @ pendingUpdates (fst (run server_init ?evs)) = accepted_draws (snd (run server_init ?evs))"
    "\<forall>s1. pendingUpdates s1 = [] \<longrightarrow> broadcastTick s1 ?clients = (s1, None, [])"
    "\<forall>s1. pendingUpdates s1 \<noteq> [] \<longrightarrow>
          broadcastTick s1 ?clients =
            (s1\<lparr>pendingUpdates := []\<rparr>, Some (PixelUpdates (pendingUpdates s1)),
             map (\<lambda>cl. (client_id cl, PixelUpdates (pendingUpdates s1)))
               (filter (\<lambda>cl. readyState cl = OPEN) ?clients))"
    using C6_broadcast_batches [OF init, of ?evs ?clients] by blast+
  have quiet: "broadcastTick server_init ?clients = (server_init, None, [])"
    using facts(2) init by blast
  have "pendingUpdates ?s1 \<noteq> []"
    by simp
  with facts(3) have "broadcastTick ?s1 ?clients =
      (?s1\<lparr>pendingUpdates := []\<rparr>, Some (PixelUpdates (pendingUpdates ?s1)),
       map (\<lambda>cl. (client_id cl, PixelUpdates (pendingUpdates ?s1)))
         (filter (\<lambda>cl. readyState cl = OPEN) ?clients))"
    by blast
  then have flush: "broadcastTick ?s1 ?clients
      = (server_init, Some (PixelUpdates [\<lparr>u_x = 5, u_y = 5, u_color = 3\<rparr>]),
         [(1, PixelUpdates [\<lparr>u_x = 5, u_y = 5, u_color = 3\<rparr>])])"
    by (simp add: server_init_def)
  from facts(1) obs quiet flush show ?thesis
    by simp
qed

subsection \<open>Facts about the snapshot codec\<close>

lemma paletteRGB_eval: "paletteRGB = map some_rgb palette_ints"
  by (simp add: paletteRGB_def COLORS_def hexToRGB_def slice_def parseInt16_def hexDigit_def
      palette_ints_def some_rgb_def)

lemma nearest_palette_self:
  "\<forall>k \<in> set [0..<16]. nearest_loop paletteRGB (paletteRGB ! k) 0 0 Infinity = int k"
  unfolding paletteRGB_eval
  by code_simp

lemma shl2_mod: "shl2 v = (4 * v + 2 ^ 31) mod 2 ^ 32 - 2 ^ 31"
proof -
  have "push_bit 2 (word_of_int v :: 32 word) = word_of_int (4 * v)"
    by (simp add: push_bit_eq_mult)
  then have "shl2 v = sint (word_of_int (4 * v) :: 32 word)"
    by (simp only: shl2_def)
  also have "\<dots> = (4 * v + 2 ^ 31) mod 2 ^ 32 - 2 ^ 31"
    by (subst int_word_sint) simp
  finally show ?thesis .
qed

lemma shl2_small: "0 \<le> v \<Longrightarrow> v < 2 ^ 29 \<Longrightarrow> shl2 v = 4 * v"
  by (simp add: shl2_mod)

lemma dist_some_rgb: "dist (some_rgb q) (some_rgb p) = Some (sqdist q p)"
  by (cases q, cases p) (simp add: dist_def some_rgb_def channel_sq_def sqdist_def)

lemma first_argmin_Cons_0:
  assumes "\<forall>p' \<in> set ps. sqdist q p \<le> sqdist q p'"
  shows "first_argmin (p # ps) q 0"
  using assms by (simp add: first_argmin_def list_all_iff)

lemma first_argmin_Cons_Suc:
  assumes "first_argmin ps q j" and "sqdist q (ps ! j) < sqdist q p"
  shows "first_argmin (p # ps) q (Suc j)"
  using assms by (simp add: first_argmin_def)

lemma nearest_loop_Finite:
  "(nearest_loop (map some_rgb ps) (some_rgb q) i bi (Finite bd) = bi
      \<and> (\<forall>p \<in> set ps. bd \<le> sqdist q p))
   \<or> (\<exists>j. nearest_loop (map some_rgb ps) (some_rgb q) i bi (Finite bd) = i + int j
          \<and> first_argmin ps q j \<and> sqdist q (ps ! j) < bd)"
proof (induction ps arbitrary: i bi bd)
  case Nil
  then show ?case by simp
next
  case (Cons p ps)
  show ?case
  proof (cases "sqdist q p < bd")
    case True
    then have unfold: "nearest_loop (map some_rgb (p # ps)) (some_rgb q) i bi (Finite bd)
        = nearest_loop (map some_rgb ps) (some_rgb q) (i + 1) i (Finite (sqdist q p))"
      by (simp add: dist_some_rgb)
    from Cons.IH [of "i + 1" i "sqdist q p"] show ?thesis
    proof (elim disjE exE conjE)
      assume r: "nearest_loop (map some_rgb ps) (some_rgb q) (i + 1) i (Finite (sqdist q p)) = i"
        and all: "\<forall>p' \<in> set ps. sqdist q p \<le> sqdist q p'"
      have "first_argmin (p # ps) q 0"
        using all by (rule first_argmin_Cons_0)
      with r True unfold show ?thesis
        by (intro disjI2 exI [of _ 0]) simp
    next
      fix j
      assume r: "nearest_loop (map some_rgb ps) (some_rgb q) (i + 1) i (Finite (sqdist q p))
                   = i + 1 + int j"
        and fa: "first_argmin ps q j" and lt: "sqdist q (ps ! j) < sqdist q p"
      have "first_argmin (p # ps) q (Suc j)"
        using fa lt by (rule first_argmin_Cons_Suc)
      with r True lt unfold show ?thesis
        by (intro disjI2 exI [of _ "Suc j"]) simp
    qed
  next
    case False
    then have unfold: "nearest_loop (map some_rgb (p # ps)) (some_rgb q) i bi (Finite bd)
        = nearest_loop (map some_rgb ps) (some_rgb q) (i + 1) bi (Finite bd)"
      by (simp add: dist_some_rgb)
    from Cons.IH [of "i + 1" bi bd] show ?thesis
    proof (elim disjE exE conjE)
      assume r: "nearest_loop (map some_rgb ps) (some_rgb q) (i + 1) bi (Finite bd) = bi"
        and all: "\<forall>p' \<in> set ps. bd \<le> sqdist q p'"
      with False unfold show ?thesis
        by (intro disjI1) simp
    next
      fix j
      assume r: "nearest_loop (map some_rgb ps) (some_rgb q) (i + 1) bi (Finite bd)
                   = i + 1 + int j"
        and fa: "first_argmin ps q j" and lt: "sqdist q (ps ! j) < bd"
      from lt False have "sqdist q (ps ! j) < sqdist q p"
        by simp
      with fa have "first_argmin (p # ps) q (Suc j)"
        by (rule first_argmin_Cons_Suc)
      with r lt unfold show ?thesis
        by (intro disjI2 exI [of _ "Suc j"]) simp
    qed
  qed
qed

lemma nearest_loop_Infinity:
  assumes "ps \<noteq> []"
  shows "\<exists>j. nearest_loop (map some_rgb ps) (some_rgb q) 0 0 Infinity = int j
            \<and> first_argmin ps q j"
proof -
  from assms obtain p ps' where ps: "ps = p # ps'"
    by (cases ps) auto
  have unfold: "nearest_loop (map some_rgb ps) (some_rgb q) 0 0 Infinity
      = nearest_loop (map some_rgb ps') (some_rgb q) 1 0 (Finite (sqdist q p))"
    by (simp add: ps dist_some_rgb)
  from nearest_loop_Finite [of ps' q 1 0 "sqdist q p"] show ?thesis
  proof (elim disjE exE conjE)
    assume "nearest_loop (map some_rgb ps') (some_rgb q) 1 0 (Finite (sqdist q p)) = 0"
      and "\<forall>p' \<in> set ps'. sqdist q p \<le> sqdist q p'"
    then show ?thesis
      using first_argmin_Cons_0 [of ps' q p] unfold by (intro exI [of _ 0]) (simp add: ps)
  next
    fix j
    assume "nearest_loop (map some_rgb ps') (some_rgb q) 1 0 (Finite (sqdist q p)) = 1 + int j"
      and "first_argmin ps' q j" and "sqdist q (ps' ! j) < sqdist q p"
    then show ?thesis
      using first_argmin_Cons_Suc [of ps' q j p] unfold by (intro exI [of _ "Suc j"]) (simp add: ps)
  qed
qed

lemma nearest_loop_range:
  "0 \<le> i \<Longrightarrow> 0 \<le> bi \<Longrightarrow>
     0 \<le> nearest_loop ps px i bi bd
     \<and> (nearest_loop ps px i bi bd = bi \<or> nearest_loop ps px i bi bd < i + int (length ps))"
proof (induction ps arbitrary: i bi bd)
  case Nil
  then show ?case by simp
next
  case (Cons p ps)
  show ?case
  proof (cases "dist px p")
    case None
    with Cons.IH [of "i + 1" bi bd] Cons.prems show ?thesis
      by auto
  next
    case (Some d)
    show ?thesis
    proof (cases "less_best d bd")
      case True
      with Some Cons.IH [of "i + 1" i "Finite d"] Cons.prems show ?thesis
        by auto
    next
      case False
      with Some Cons.IH [of "i + 1" bi bd] Cons.prems show ?thesis
        by auto
    qed
  qed
qed

lemma nearest_index_range:
  "0 \<le> nearest_loop paletteRGB px 0 0 Infinity \<and> nearest_loop paletteRGB px 0 0 Infinity < 16"
proof -
  have "length paletteRGB = 16"
    by (simp add: paletteRGB_def length_COLORS)
  with nearest_loop_range [of 0 0 paletteRGB px Infinity] show ?thesis
    by auto
qed

lemma load_cell_range: "0 \<le> load_cell img x y \<and> load_cell img x y < 16"
  unfolding load_cell_def by (rule nearest_index_range)

lemma setPixel_writes:
  "in_canvas x y \<Longrightarrow> 0 \<le> k \<Longrightarrow> k < 16 \<Longrightarrow>
     setPixel c x y k = (True, u8_set c (getPixelIndex x y) (Some k))"
  by (simp add: setPixel_def in_canvas_def length_COLORS)

lemma setPixel_other:
  "k \<noteq> getPixelIndex x y \<Longrightarrow> u8_get (snd (setPixel c x y v)) k = u8_get c k"
  by (simp add: setPixel_def u8_get_u8_set_other)

lemma length_setPixel: "length (snd (setPixel c x y v)) = length c"
  by (simp add: setPixel_def length_u8_set)

lemma canvas_ok_setPixel: "canvas_ok c \<Longrightarrow> canvas_ok (snd (setPixel c x y v))"
  by (simp add: canvas_ok_def length_setPixel)

lemma setPixel_same:
  assumes "canvas_ok c" and "in_canvas x y" and "0 \<le> k" and "k < 16"
  shows "u8_get (snd (setPixel c x y k)) (getPixelIndex x y) = Some k"
proof -
  from assms(1,2) have "0 \<le> getPixelIndex x y" "getPixelIndex x y < int (length c)"
    using pixel_index_in_range [of x y] by (simp_all add: canvas_ok_def in_canvas_def)
  then have "u8_get (u8_set c (getPixelIndex x y) (Some k)) (getPixelIndex x y)
               = Some (uint (ToUint8 (Some k)))"
    by (rule u8_get_u8_set_same)
  moreover have "uint (ToUint8 (Some k)) = k"
    using assms(3,4) by (intro uint_ToUint8_small) simp_all
  ultimately show ?thesis
    using setPixel_writes [OF assms(2,3,4), of c] by simp
qed

lemma canvas_ok_load_x: "canvas_ok c \<Longrightarrow> canvas_ok (load_x img palette w y x c)"
proof (induction img palette w y x c rule: load_x.induct)
  case (1 img palette w y x c)
  then show ?case
    by (subst load_x.simps) (simp add: Let_def canvas_ok_setPixel)
qed

lemma canvas_ok_load_y: "canvas_ok c \<Longrightarrow> canvas_ok (load_y img palette w h y c)"
proof (induction img palette w h y c rule: load_y.induct)
  case (1 img palette w h y c)
  then show ?case
    by (subst load_y.simps) (simp add: canvas_ok_load_x)
qed

lemma load_x_unchanged:
  "(\<forall>x'. x \<le> x' \<and> x' < w \<longrightarrow> k \<noteq> getPixelIndex x' y) \<Longrightarrow>
     u8_get (load_x img palette w y x c) k = u8_get c k"
proof (induction img palette w y x c rule: load_x.induct)
  case (1 img palette w y x c)
  show ?case
  proof (cases "x < w")
    case True
    with 1 show ?thesis
      by (subst load_x.simps) (simp add: Let_def setPixel_other)
  next
    case False
    then show ?thesis by (subst load_x.simps) simp
  qed
qed

lemma load_y_unchanged:
  "(\<forall>x' y'. 0 \<le> x' \<and> x' < w \<and> y \<le> y' \<and> y' < h \<longrightarrow> k \<noteq> getPixelIndex x' y') \<Longrightarrow>
     u8_get (load_y img palette w h y c) k = u8_get c k"
proof (induction img palette w h y c rule: load_y.induct)
  case (1 img palette w h y c)
  show ?case
  proof (cases "y < h")
    case True
    with 1 show ?thesis
      by (subst load_y.simps) (simp add: load_x_unchanged)
  next
    case False
    then show ?thesis by (subst load_y.simps) simp
  qed
qed

lemma load_x_at:
  "x \<le> j \<Longrightarrow> j < w \<Longrightarrow> in_canvas j y \<Longrightarrow> canvas_ok c \<Longrightarrow>
     u8_get (load_x img paletteRGB w y x c) (getPixelIndex j y) = Some (load_cell img j y)"
proof (induction img paletteRGB w y x c rule: load_x.induct)
  case (1 img w y x c)
  let ?c1 = "snd (setPixel c x y (load_cell img x y))"
  from 1 have lt: "x < w" by simp
  then have unfold: "load_x img paletteRGB w y x c = load_x img paletteRGB w y (x + 1) ?c1"
    by (subst load_x.simps) (simp add: Let_def load_cell_def)
  show ?case
  proof (cases "j = x")
    case True
    have "u8_get (load_x img paletteRGB w y (x + 1) ?c1) (getPixelIndex j y)
            = u8_get ?c1 (getPixelIndex j y)"
      using True by (intro load_x_unchanged) (simp add: getPixelIndex_def)
    also have "\<dots> = Some (load_cell img j y)"
      using True 1(4,5) load_cell_range [of img x y] by (simp add: setPixel_same)
    finally show ?thesis by (simp add: unfold)
  next
    case False
    with 1(2) have "x + 1 \<le> j" by simp
    then have "u8_get (load_x img paletteRGB w y (x + 1) ?c1) (getPixelIndex j y)
                 = Some (load_cell img j y)"
      using 1(1) [OF lt refl] 1(3,4,5)
      by (simp add: load_cell_def canvas_ok_setPixel)
    then show ?thesis by (simp add: unfold)
  qed
qed

lemma load_y_at:
  "y \<le> i \<Longrightarrow> i < h \<Longrightarrow> 0 \<le> j \<Longrightarrow> j < w \<Longrightarrow> w \<le> CANVAS_SIZE \<Longrightarrow> in_canvas j i \<Longrightarrow>
   canvas_ok c \<Longrightarrow>
     u8_get (load_y img paletteRGB w h y c) (getPixelIndex j i) = Some (load_cell img j i)"
proof (induction img paletteRGB w h y c rule: load_y.induct)
  case (1 img w h y c)
  let ?c1 = "load_x img paletteRGB w y 0 c"
  from 1 have lt: "y < h" by simp
  then have unfold: "load_y img paletteRGB w h y c = load_y img paletteRGB w h (y + 1) ?c1"
    by (subst load_y.simps) simp
  have ok1: "canvas_ok ?c1"
    using 1 by (simp add: canvas_ok_load_x)
  show ?case
  proof (cases "i = y")
    case True
    have "u8_get (load_y img paletteRGB w h (y + 1) ?c1) (getPixelIndex j i)
            = u8_get ?c1 (getPixelIndex j i)"
      using True 1(4,5,6)
      by (intro load_y_unchanged) (auto simp: getPixelIndex_def CANVAS_SIZE_def)
    also have "\<dots> = Some (load_cell img j i)"
      using True 1(4,5,7,8) by (simp add: load_x_at)
    finally show ?thesis by (simp add: unfold)
  next
    case False
    with 1(2) have "y + 1 \<le> i" by simp
    then have "u8_get (load_y img paletteRGB w h (y + 1) ?c1) (getPixelIndex j i)
                 = Some (load_cell img j i)"
      using 1(1) [OF lt] 1(3,4,5,6,7) ok1 by simp
    then show ?thesis by (simp add: unfold)
  qed
qed

lemma overlap_in_canvas: "overlap img x y \<Longrightarrow> in_canvas x y"
  by (simp add: overlap_def in_canvas_def)

lemma parsed_overlap:
  assumes "canvas_ok c" and "overlap img x y"
  shows "getPixel (fst (parsed img c)) x y = Some (load_cell img x y)"
proof -
  from assms(2) have "0 \<le> y" "y < min (png_height img) CANVAS_SIZE"
    "0 \<le> x" "x < min (png_width img) CANVAS_SIZE"
    by (simp_all add: overlap_def)
  then have "u8_get (load_y img paletteRGB (min (png_width img) CANVAS_SIZE)
                 (min (png_height img) CANVAS_SIZE) 0 c) (getPixelIndex x y)
               = Some (load_cell img x y)"
    using assms(1) overlap_in_canvas [OF assms(2)] by (intro load_y_at) simp_all
  then show ?thesis
    by (simp add: parsed_def Let_def getPixel_def)
qed

lemma pixel_index_inj:
  assumes "in_canvas x y" and "in_canvas x' y'" and "getPixelIndex x y = getPixelIndex x' y'"
  shows "x = x' \<and> y = y'"
proof -
  from assms have b: "0 \<le> x" "x < 2000" "0 \<le> x'" "x' < 2000"
    and e: "y * 2000 + x = y' * 2000 + x'"
    by (simp_all add: in_canvas_def getPixelIndex_def CANVAS_SIZE_def)
  have "y = y'"
  proof (rule ccontr)
    assume "y \<noteq> y'"
    then consider "y + 1 \<le> y'" | "y' + 1 \<le> y"
      by linarith
    then show False
      using b e by cases linarith+
  qed
  with e show ?thesis by simp
qed

lemma parsed_outside:
  assumes "in_canvas x y" and "\<not> overlap img x y"
  shows "getPixel (fst (parsed img c)) x y = getPixel c x y"
proof -
  have "u8_get (load_y img paletteRGB (min (png_width img) CANVAS_SIZE)
            (min (png_height img) CANVAS_SIZE) 0 c) (getPixelIndex x y)
          = u8_get c (getPixelIndex x y)"
  proof (intro load_y_unchanged allI impI)
    fix x' y'
    assume a: "0 \<le> x' \<and> x' < min (png_width img) CANVAS_SIZE
                 \<and> 0 \<le> y' \<and> y' < min (png_height img) CANVAS_SIZE"
    then have ov: "overlap img x' y'"
      by (simp add: overlap_def)
    show "getPixelIndex x y \<noteq> getPixelIndex x' y'"
    proof
      assume "getPixelIndex x y = getPixelIndex x' y'"
      with assms(1) overlap_in_canvas [OF ov] have "x = x' \<and> y = y'"
        by (rule pixel_index_inj)
      with ov assms(2) show False by simp
    qed
  qed
  then show ?thesis
    by (simp add: parsed_def Let_def getPixel_def)
qed

lemma parsed_log:
  "snd (parsed img c) =
     (if png_width img = CANVAS_SIZE \<and> png_height img = CANVAS_SIZE then [Loaded]
      else [SizeWarning (png_width img) (png_height img), Loaded])"
  by (simp add: parsed_def Let_def)

lemma pixel_at_exact:
  assumes "0 \<le> y * png_width img + x" and "y * png_width img + x < 2 ^ 29"
  shows "pixel_at img x y = image_rgb img x y"
  using assms by (simp add: pixel_at_def image_rgb_def Let_def shl2_small)

lemma overlap_offset:
  assumes "png_ok img" and "overlap img x y"
  shows "0 \<le> y * png_width img + x
       \<and> y * png_width img + x < png_width img * min (png_height img) CANVAS_SIZE
       \<and> y * png_width img + x < png_width img * png_height img"
proof -
  let ?h = "min (png_height img) CANVAS_SIZE"
  from assms(2) have b: "0 \<le> x" "x < png_width img" "0 \<le> y" "y < ?h" "y < png_height img"
    by (simp_all add: overlap_def)
  from region_index_bound [OF b(1,2,3,4)] region_index_bound [OF b(1,2,3,5)]
  show ?thesis by simp
qed

lemma image_rgb_bytes:
  assumes "png_ok img" and "overlap img x y"
  shows "\<exists>r g b. image_rgb img x y = some_rgb (r, g, b)
           \<and> 0 \<le> r \<and> r < 256 \<and> 0 \<le> g \<and> g < 256 \<and> 0 \<le> b \<and> b < 256"
proof -
  let ?k = "y * png_width img + x"
  from overlap_offset [OF assms] have "0 \<le> ?k" "?k < png_width img * png_height img"
    by simp_all
  with assms(1) have "0 \<le> 4 * ?k" "4 * ?k + 2 < int (length (png_data img))"
    by (simp_all add: png_ok_def)
  then have "image_rgb img x y =
      some_rgb (uint (png_data img ! nat (4 * ?k)), uint (png_data img ! nat (4 * ?k + 1)),
                uint (png_data img ! nat (4 * ?k + 2)))"
    by (simp add: image_rgb_def some_rgb_def u8_get_def)
  moreover have "0 \<le> uint w \<and> uint w < 256" for w :: "8 word"
    using uint_bounded [of w] by simp
  ultimately show ?thesis by blast
qed

lemma load_cell_argmin:
  assumes "pixel_at img x y = some_rgb q"
  shows "\<exists>j. load_cell img x y = int j \<and> first_argmin palette_ints q j"
proof -
  have "palette_ints \<noteq> []"
    by (simp add: palette_ints_def)
  from nearest_loop_Infinity [OF this, of q] show ?thesis
    by (simp add: load_cell_def assms paletteRGB_eval)
qed

lemma nearest_loop_undefined:
  "nearest_loop ps (None, g, b) i bi bd = bi"
  by (induction ps arbitrary: i) (simp_all add: dist_def channel_sq_def split: prod.splits)

lemma loadCanvasFromPNG_Decoded: "loadCanvasFromPNG (Decoded img) c = parsed img c"
  by (simp add: loadCanvasFromPNG_def)

lemma parsed_quantizes:
  assumes "canvas_ok c" and "png_ok img"
    and "png_width img * min (png_height img) CANVAS_SIZE \<le> 2 ^ 29"
  shows "(\<forall>x y. overlap img x y \<longrightarrow>
            (\<exists>q j. image_rgb img x y = some_rgb q
               \<and> getPixel (fst (loadCanvasFromPNG (Decoded img) c)) x y = Some (int j)
               \<and> first_argmin palette_ints q j))
     \<and> (\<forall>x y. in_canvas x y \<and> \<not> overlap img x y \<longrightarrow>
            getPixel (fst (loadCanvasFromPNG (Decoded img) c)) x y = getPixel c x y)
     \<and> snd (loadCanvasFromPNG (Decoded img) c) =
          (if png_width img = CANVAS_SIZE \<and> png_height img = CANVAS_SIZE then [Loaded]
           else [SizeWarning (png_width img) (png_height img), Loaded])"
proof (intro conjI allI impI)
  fix x y assume ov: "overlap img x y"
  from overlap_offset [OF assms(2) ov] assms(3)
  have "0 \<le> y * png_width img + x" "y * png_width img + x < 2 ^ 29"
    by simp_all
  then have px: "pixel_at img x y = image_rgb img x y"
    by (rule pixel_at_exact)
  from image_rgb_bytes [OF assms(2) ov] obtain q where q: "image_rgb img x y = some_rgb q"
    by blast
  with px load_cell_argmin [of img x y q] obtain j
    where "load_cell img x y = int j" "first_argmin palette_ints q j"
    by auto
  with q parsed_overlap [OF assms(1) ov]
  have "image_rgb img x y = some_rgb q
      \<and> getPixel (fst (loadCanvasFromPNG (Decoded img) c)) x y = Some (int j)
      \<and> first_argmin palette_ints q j"
    by (simp add: loadCanvasFromPNG_Decoded)
  then show "\<exists>q j. image_rgb img x y = some_rgb q
               \<and> getPixel (fst (loadCanvasFromPNG (Decoded img) c)) x y = Some (int j)
               \<and> first_argmin palette_ints q j"
    by (intro exI)
next
  fix x y assume "in_canvas x y \<and> \<not> overlap img x y"
  then show "getPixel (fst (loadCanvasFromPNG (Decoded img) c)) x y = getPixel c x y"
    by (simp add: loadCanvasFromPNG_Decoded parsed_outside)
next
  show "snd (loadCanvasFromPNG (Decoded img) c) =
          (if png_width img = CANVAS_SIZE \<and> png_height img = CANVAS_SIZE then [Loaded]
           else [SizeWarning (png_width img) (png_height img), Loaded])"
    by (simp add: loadCanvasFromPNG_Decoded parsed_log)
qed

lemma export_loop_unfold:
  "i < int (length c) \<Longrightarrow> export_loop c i d = export_loop c (i + 1) (export_step c i d)"
  by (subst export_loop.simps)
     (simp add: Let_def export_step_def export_color_def hexToRGB_def)

lemma export_loop_done: "\<not> i < int (length c) \<Longrightarrow> export_loop c i d = d"
  by (subst export_loop.simps) simp

lemma length_export_step: "length (export_step c i d) = length d"
  by (simp add: export_step_def length_u8_set split: prod.splits)

lemma export_loop_induct [case_names step]:
  assumes "\<And>c i d. (i < int (length c) \<Longrightarrow> P c (i + 1) (export_step c i d)) \<Longrightarrow> P c i d"
  shows "P c i d"
proof (induction c i d rule: export_loop.induct)
  case (1 c i d)
  show ?case
  proof (rule assms)
    assume lt: "i < int (length c)"
    show "P c (i + 1) (export_step c i d)"
      using 1 [OF lt refl refl refl refl refl refl refl refl refl refl]
      by (simp add: export_step_def export_color_def hexToRGB_def)
  qed
qed

lemma length_export_loop: "length (export_loop c i d) = length d"
proof (induction c i d rule: export_loop_induct)
  case (step c i d)
  show ?case
  proof (cases "i < int (length c)")
    case True
    have "length (export_loop c i d) = length (export_loop c (i + 1) (export_step c i d))"
      by (simp only: export_loop_unfold [OF True])
    also have "\<dots> = length (export_step c i d)"
      using True by (rule step.IH)
    finally show ?thesis
      by (simp only: length_export_step)
  next
    case False
    then show ?thesis by (simp only: export_loop_done [OF False])
  qed
qed

lemma export_step_unchanged:
  assumes "0 \<le> i" and "i < 2 ^ 29" and "k < 4 * i \<or> 4 * i + 4 \<le> k"
  shows "u8_get (export_step c i d) k = u8_get d k"
proof -
  obtain r g b where rgb: "hexToRGB (export_color c i) = (r, g, b)"
    by (cases "hexToRGB (export_color c i)")
  from assms(3) have "4 * i \<noteq> k" "4 * i + 1 \<noteq> k" "4 * i + 2 \<noteq> k" "4 * i + 3 \<noteq> k"
    by auto
  then show ?thesis
    using assms(1,2) by (simp add: export_step_def rgb shl2_small u8_get_u8_set_other)
qed

lemma export_step_at:
  assumes "0 \<le> i" and "i < 2 ^ 29" and "4 * i + 3 < int (length d)"
  shows "(u8_get (export_step c i d) (4 * i), u8_get (export_step c i d) (4 * i + 1),
          u8_get (export_step c i d) (4 * i + 2)) = rgb_bytes (hexToRGB (export_color c i))"
proof -
  obtain r g b where rgb: "hexToRGB (export_color c i) = (r, g, b)"
    by (cases "hexToRGB (export_color c i)")
  show ?thesis
    using assms
    by (simp add: export_step_def rgb shl2_small rgb_bytes_def u8_get_u8_set_other
        u8_get_u8_set_eq length_u8_set)
qed

lemma export_loop_unchanged:
  "0 \<le> i \<Longrightarrow> int (length c) \<le> 2 ^ 29 \<Longrightarrow> k < 4 * i \<Longrightarrow>
     u8_get (export_loop c i d) k = u8_get d k"
proof (induction c i d rule: export_loop_induct)
  case (step c i d)
  show ?case
  proof (cases "i < int (length c)")
    case True
    with step.prems have "u8_get (export_loop c (i + 1) (export_step c i d)) k
                            = u8_get (export_step c i d) k"
      by (intro step.IH) simp_all
    also have "\<dots> = u8_get d k"
      using True step.prems by (intro export_step_unchanged) simp_all
    finally show ?thesis
      by (simp only: export_loop_unfold [OF True])
  next
    case False
    then show ?thesis by (simp only: export_loop_done [OF False])
  qed
qed

lemma export_loop_at:
  "0 \<le> i \<Longrightarrow> i \<le> j \<Longrightarrow> j < int (length c) \<Longrightarrow> int (length c) \<le> 2 ^ 29 \<Longrightarrow>
   4 * int (length c) \<le> int (length d) \<Longrightarrow>
     (u8_get (export_loop c i d) (4 * j), u8_get (export_loop c i d) (4 * j + 1),
      u8_get (export_loop c i d) (4 * j + 2)) = rgb_bytes (hexToRGB (export_color c j))"
proof (induction c i d rule: export_loop_induct)
  case (step c i d)
  from step.prems have lt: "i < int (length c)" by simp
  let ?d1 = "export_step c i d"
  show ?case
  proof (cases "j = i")
    case True
    have "u8_get (export_loop c (i + 1) ?d1) k = u8_get ?d1 k" if "k < 4 * (i + 1)" for k
      using step.prems that by (intro export_loop_unchanged) simp_all
    then have "(u8_get (export_loop c (i + 1) ?d1) (4 * j),
                u8_get (export_loop c (i + 1) ?d1) (4 * j + 1),
                u8_get (export_loop c (i + 1) ?d1) (4 * j + 2))
             = (u8_get ?d1 (4 * i), u8_get ?d1 (4 * i + 1), u8_get ?d1 (4 * i + 2))"
      using True by simp
    also have "\<dots> = rgb_bytes (hexToRGB (export_color c i))"
      using step.prems lt by (intro export_step_at) simp_all
    finally show ?thesis
      by (simp only: export_loop_unfold [OF lt] True)
  next
    case False
    with step.prems have "i + 1 \<le> j" by simp
    with step.prems lt have "(u8_get (export_loop c (i + 1) ?d1) (4 * j),
                u8_get (export_loop c (i + 1) ?d1) (4 * j + 1),
                u8_get (export_loop c (i + 1) ?d1) (4 * j + 2))
             = rgb_bytes (hexToRGB (export_color c j))"
      by (intro step.IH) (simp_all add: length_export_step)
    then show ?thesis
      by (simp only: export_loop_unfold [OF lt])
  qed
qed

lemma palette_bytes:
  "\<forall>k \<in> set [0..<16]. rgb_bytes (paletteRGB ! k) = paletteRGB ! k"
  unfolding paletteRGB_eval
  by code_simp

lemma hexToRGB_COLORS: "k < 16 \<Longrightarrow> hexToRGB (COLORS ! k) = paletteRGB ! k"
  by (simp add: paletteRGB_def length_COLORS)

lemma valid_cell:
  assumes "valid_canvas c" and "0 \<le> i" and "i < int (length c)"
  shows "u8_get c i = Some (uint (c ! nat i)) \<and> uint (c ! nat i) < 16
       \<and> unat (c ! nat i) < 16"
proof -
  from assms have lt: "c ! nat i < 16"
    by (simp add: valid_canvas_def list_all_length)
  then have "unat (c ! nat i) < 16"
    by (simp add: word_less_nat_alt)
  moreover from lt have "uint (c ! nat i) < uint (16 :: 8 word)"
    by (simp only: word_less_def)
  then have "uint (c ! nat i) < 16"
    by simp
  ultimately show ?thesis
    using assms(2,3)
    by (simp add: u8_get_def)
qed

lemma export_pixel:
  assumes "canvas_ok c" and "valid_canvas c" and "in_canvas x y"
  shows "pixel_at (exportCanvasToPNG c) x y
           = paletteRGB ! unat (c ! nat (getPixelIndex x y))"
proof -
  let ?i = "getPixelIndex x y"
  let ?v = "unat (c ! nat ?i)"
  let ?d = "export_loop c 0 (replicate (nat (4 * CANVAS_SIZE * CANVAS_SIZE)) 0)"
  from assms(1,3) have i: "0 \<le> ?i" "?i < int (length c)" and len: "int (length c) = 4000000"
    using pixel_index_in_range [of x y]
    by (simp_all add: canvas_ok_def in_canvas_def CANVAS_SIZE_def)
  from valid_cell [OF assms(2) i]
  have v: "u8_get c ?i = Some (uint (c ! nat ?i))" "uint (c ! nat ?i) < 16" and v16: "?v < 16"
    by simp_all
  then have col: "export_color c ?i = COLORS ! ?v"
    by (simp add: export_color_def length_COLORS)
  have "y * png_width (exportCanvasToPNG c) + x = ?i"
    by (simp add: exportCanvasToPNG_def getPixelIndex_def)
  moreover have "shl2 ?i = 4 * ?i"
    using i len by (intro shl2_small) simp_all
  ultimately have "pixel_at (exportCanvasToPNG c) x y
      = (u8_get ?d (4 * ?i), u8_get ?d (4 * ?i + 1), u8_get ?d (4 * ?i + 2))"
    by (simp add: pixel_at_def Let_def exportCanvasToPNG_def)
  also have "\<dots> = rgb_bytes (hexToRGB (export_color c ?i))"
    using i len by (intro export_loop_at) (simp_all add: CANVAS_SIZE_def)
  also have "\<dots> = rgb_bytes (paletteRGB ! ?v)"
    using v16 by (simp only: col hexToRGB_COLORS)
  also have "\<dots> = paletteRGB ! ?v"
    using palette_bytes v16 by simp
  finally show ?thesis .
qed

lemma export_load_cell:
  assumes "canvas_ok c" and "valid_canvas c" and "in_canvas x y"
  shows "load_cell (exportCanvasToPNG c) x y = uint (c ! nat (getPixelIndex x y))"
proof -
  let ?v = "unat (c ! nat (getPixelIndex x y))"
  from assms(1,3) have "0 \<le> getPixelIndex x y" "getPixelIndex x y < int (length c)"
    using pixel_index_in_range [of x y] by (simp_all add: canvas_ok_def in_canvas_def)
  from valid_cell [OF assms(2) this] have "?v < 16"
    by simp
  with nearest_palette_self
  have "nearest_loop paletteRGB (paletteRGB ! ?v) 0 0 Infinity = int ?v"
    by simp
  then show ?thesis
    by (simp add: load_cell_def export_pixel [OF assms])
qed

lemma canvas_ok_parsed: "canvas_ok c \<Longrightarrow> canvas_ok (fst (parsed img c))"
  by (simp add: parsed_def Let_def canvas_ok_load_y)

lemma valid_canvas_init: "valid_canvas canvas_init"
  by (simp add: valid_canvas_def canvas_init_def list_all_iff)

lemma valid_canvas_update: "valid_canvas c \<Longrightarrow> v < 16 \<Longrightarrow> valid_canvas (c[i := v])"
  by (cases "i < length c") (auto simp: valid_canvas_def list_all_length nth_list_update)

lemma canvas_ok_update: "canvas_ok c \<Longrightarrow> canvas_ok (c[i := v])"
  by (simp add: canvas_ok_def)

lemma canvas_cell_coords:
  assumes "k < 4000000"
  shows "in_canvas (int k mod 2000) (int k div 2000)
       \<and> getPixelIndex (int k mod 2000) (int k div 2000) = int k"
proof -
  have "int k div 2000 < 2000"
    using assms by (simp add: zdiv_int [symmetric])
  moreover have "0 \<le> int k div 2000"
    by (simp add: pos_imp_zdiv_nonneg_iff)
  ultimately show ?thesis
    by (simp add: in_canvas_def getPixelIndex_def CANVAS_SIZE_def)
qed

subsection \<open>C7: exporting and loading back\<close>

text \<open>
  Claim C7. For a canvas whose cells are all palette indices, exporting it to an image
  and loading that image back, through the nearest-colour quantisation, gives the same
  canvas again, whatever the canvas was before the load.
\<close>

theorem C7_roundtrip:
  assumes "canvas_ok c" and "valid_canvas c" and "canvas_ok c0"
  shows "loadCanvasFromPNG (Decoded (exportCanvasToPNG c)) c0 = (c, [Loaded])"
proof -
  let ?img = "exportCanvasToPNG c"
  let ?r = "fst (parsed ?img c0)"
  have dims: "png_width ?img = CANVAS_SIZE" "png_height ?img = CANVAS_SIZE"
    by (simp_all add: exportCanvasToPNG_def)
  have len: "length ?r = 4000000" "length c = 4000000"
    using canvas_ok_parsed [OF assms(3), of ?img] assms(1)
    by (simp_all add: canvas_ok_def CANVAS_SIZE_def)
  have "?r = c"
  proof (rule nth_equalityI)
    show "length ?r = length c"
      by (simp add: len)
  next
    fix k assume "k < length ?r"
    then have k: "k < 4000000"
      by (simp add: len)
    let ?x = "int k mod 2000" and ?y = "int k div 2000"
    from canvas_cell_coords [OF k] have inc: "in_canvas ?x ?y" and idx: "getPixelIndex ?x ?y = int k"
      by simp_all
    from inc have "overlap ?img ?x ?y"
      by (simp add: overlap_def in_canvas_def dims)
    from parsed_overlap [OF assms(3) this]
    have "getPixel ?r ?x ?y = Some (uint (c ! k))"
      by (simp add: export_load_cell [OF assms(1,2) inc] idx)
    then have "uint (?r ! k) = uint (c ! k)"
      using k len by (simp add: getPixel_def idx u8_get_def)
    then show "?r ! k = c ! k"
      by (simp add: word_uint_eq_iff)
  qed
  moreover have "snd (parsed ?img c0) = [Loaded]"
    by (simp add: parsed_log dims)
  ultimately show ?thesis
    by (simp add: loadCanvasFromPNG_Decoded prod_eq_iff)
qed

theorem C7_roundtrip_witness:
  "loadCanvasFromPNG (Decoded (exportCanvasToPNG (canvas_init[5 := 3, 3999999 := 15]))) canvas_init
     = (canvas_init[5 := 3, 3999999 := 15], [Loaded])"
proof -
  have "canvas_ok (canvas_init[5 := 3, 3999999 := 15])"
    by (intro canvas_ok_update canvas_ok_init)
  moreover have "valid_canvas (canvas_init[5 := 3, 3999999 := 15])"
    by (intro valid_canvas_update valid_canvas_init) simp_all
  ultimately show ?thesis
    using canvas_ok_init by (rule C7_roundtrip)
qed

subsection \<open>C8: loading an image of any size\<close>

text \<open>
  Claim C8. Every pixel in the overlap of image and canvas should set its cell to the
  nearest palette index. In \<open>wide_image\<close> the pixel \<open>(0, 1790)\<close> lies in the overlap and is
  \<open>#222222\<close>, whose nearest palette entry is index 3; but its offset 537000000 shifted
  left by two bits leaves the signed 32-bit range, the read of the image data yields
  \<open>undefined\<close>, and the loader stores index 0 in the cell (which held 5 before). For
  images below \<open>2 ^ 29\<close> pixels the loader does what the claim says: \<open>parsed_quantizes\<close>.
\<close>

theorem C8_index_wraps:
  "png_ok wide_image \<and> overlap wide_image 0 1790
   \<and> image_rgb wide_image 0 1790 = some_rgb (34, 34, 34)
   \<and> first_argmin palette_ints (34, 34, 34) 3
   \<and> getPixel (snd (setPixel canvas_init 0 1790 5)) 0 1790 = Some 5
   \<and> getPixel (fst (loadCanvasFromPNG (Decoded wide_image) (snd (setPixel canvas_init 0 1790 5))))
        0 1790 = Some 0"
proof -
  let ?c = "snd (setPixel canvas_init 0 1790 5)"
  have ok: "canvas_ok ?c"
    by (simp add: canvas_ok_setPixel canvas_ok_init)
  have inc: "in_canvas 0 1790"
    by (simp add: in_canvas_def CANVAS_SIZE_def)
  have p: "png_ok wide_image"
    by (simp add: png_ok_def wide_image_def)
  have ov: "overlap wide_image 0 1790"
    by (simp add: overlap_def wide_image_def CANVAS_SIZE_def)
  have rgb: "image_rgb wide_image 0 1790 = some_rgb (34, 34, 34)"
    by (simp add: image_rgb_def wide_image_def some_rgb_def u8_get_def)
  have best: "first_argmin palette_ints (34, 34, 34) 3"
    by (simp add: first_argmin_def palette_ints_def sqdist_def)
  have before: "getPixel ?c 0 1790 = Some 5"
    using setPixel_same [OF canvas_ok_init inc, of 5] by (simp add: getPixel_def)
  have "shl2 (1790 * png_width wide_image + 0) = - 2146967296"
    by (simp add: shl2_mod wide_image_def)
  then have "pixel_at wide_image 0 1790 = (None, None, None)"
    by (simp add: pixel_at_def Let_def u8_get_def)
  then have "load_cell wide_image 0 1790 = 0"
    by (simp add: load_cell_def nearest_loop_undefined)
  with parsed_overlap [OF ok ov] have "getPixel (fst (parsed wide_image ?c)) 0 1790 = Some 0"
    by simp
  with p ov rgb best before show ?thesis
    by (simp add: loadCanvasFromPNG_Decoded)
qed

subsection \<open>C9: one export at a time\<close>

lemma save_inv_init: "save_inv process_init"
  by (simp add: save_inv_def process_init_def)

lemma save_inv_step: "save_inv p \<Longrightarrow> save_inv (fst (save_step p e))"
proof (cases e)
  case PostSaveSnapshot
  assume "save_inv p"
  with PostSaveSnapshot show ?thesis
    by (auto simp: save_inv_def)
next
  case Signal
  assume "save_inv p"
  with Signal show ?thesis
    by (auto simp: save_inv_def)
next
  case (ExportSettled origin ok)
  assume "save_inv p"
  with ExportSettled show ?thesis
    by (cases origin; cases "exporting p") (auto simp: save_inv_def)
qed

lemma save_inv_run: "save_inv p \<Longrightarrow> save_inv (fst (save_run p es))"
proof (induction es arbitrary: p)
  case Nil
  then show ?case by simp
next
  case (Cons e es)
  obtain p1 out where st: "save_step p e = (p1, out)"
    by (cases "save_step p e")
  obtain p2 outs where rn: "save_run p1 es = (p2, outs)"
    by (cases "save_run p1 es")
  from save_inv_step [OF Cons.prems, of e] st have "save_inv p1"
    by simp
  from Cons.IH [OF this] rn show ?case
    by (simp add: st)
qed

lemma one_encode_at_a_time:
  "length (exporting (fst (save_run process_init es))) \<le> 1"
  using save_inv_run [OF save_inv_init, of es] by (simp add: save_inv_def)

lemma save_conflict:
  "\<not> exited p \<Longrightarrow> isSaving p \<Longrightarrow> save_step p PostSaveSnapshot = (p, [Status409])"
  by simp

lemma signal_while_saving:
  "\<not> exited p \<Longrightarrow> isSaving p \<Longrightarrow> save_step p Signal = (p, [])"
  by simp

text \<open>
  Claim C9. No second export starts while one is in progress (\<open>one_encode_at_a_time\<close>,
  \<open>save_conflict\<close>, \<open>signal_while_saving\<close>). But a termination signal that arrives while an
  export started by \<open>POST /save-snapshot\<close> is in progress is dropped: \<open>saveAndExit\<close> returns
  without saving and without exiting, and when the export has settled the process is
  still running, with no exit to come.
\<close>

theorem C9_signal_during_save:
  "save_run process_init [PostSaveSnapshot, Signal, ExportSettled HttpSave True]
     = (\<lparr>isSaving = False, exporting = [], exited = False\<rparr>, [ExportStarted HttpSave, Status200])"
  by (simp add: process_init_def)

subsection \<open>C10: the cooldown sweep\<close>

lemma map_of_sweep_entries:
  "map_of (sweep_entries es now m) u =
     (if \<exists>ts. (u, ts) \<in> set es \<and> now - ts > COOLDOWN_MS * 10 then None else map_of m u)"
proof (induction es arbitrary: m)
  case Nil
  then show ?case by simp
next
  case (Cons e es)
  obtain v ts where e: "e = (v, ts)" by (cases e)
  show ?case
    by (auto simp: e Cons delete_conv')
qed

lemma map_of_cooldownSweep:
  assumes "cooldowns_ok m"
  shows "map_of (cooldownSweep m now) u =
     (case map_of m u of
        None \<Rightarrow> None
      | Some ts \<Rightarrow> if now - ts > COOLDOWN_MS * 10 then None else Some ts)"
proof -
  have "(u, ts) \<in> set m \<longleftrightarrow> map_of m u = Some ts" for ts
    using assms by (simp add: cooldowns_ok_def)
  then show ?thesis
    by (auto simp: cooldownSweep_def map_of_sweep_entries split: option.splits)
qed

text \<open>
  Claim C10. The cooldown sweep run at time \<open>now\<close> changes no draw-eligibility decision
  taken at any time \<open>t \<ge> now\<close>: it removes exactly the records older than ten cooldown
  windows, and \<open>canUserDraw\<close> is true for those as it is for an absent record.
\<close>

theorem C10_sweep_preserves_canDraw:
  assumes "cooldowns_ok cd" and "now \<le> t"
  shows "canUserDraw (cooldownSweep cd now) t uid = canUserDraw cd t uid
    \<and> map_of (cooldownSweep cd now) uid =
        (case map_of cd uid of
           None \<Rightarrow> None
         | Some ts \<Rightarrow> if now - ts > COOLDOWN_MS * 10 then None else Some ts)"
  using assms
  by (auto simp: canUserDraw_def map_of_cooldownSweep COOLDOWN_MS_def split: option.splits)

theorem C10_sweep_preserves_canDraw_witness:
  "canUserDraw (cooldownSweep [(''a'', 1000), (''b'', 58000)] 60000) 60000 ''a''
     = canUserDraw [(''a'', 1000), (''b'', 58000)] 60000 ''a''
   \<and> map_of (cooldownSweep [(''a'', 1000), (''b'', 58000)] 60000) ''a'' = None
   \<and> canUserDraw (cooldownSweep [(''a'', 1000), (''b'', 58000)] 60000) 60000 ''b''
     = canUserDraw [(''a'', 1000), (''b'', 58000)] 60000 ''b''
   \<and> map_of (cooldownSweep [(''a'', 1000), (''b'', 58000)] 60000) ''b'' = Some 58000"
  using C10_sweep_preserves_canDraw [of "[(''a'', 1000), (''b'', 58000)]" 60000 60000 "''a''"]
    C10_sweep_preserves_canDraw [of "[(''a'', 1000), (''b'', 58000)]" 60000 60000 "''b''"]
  by (simp add: cooldowns_ok_def COOLDOWN_MS_def)

end
